theory Spec2Isabelle
  imports Main "HOL-Library.AList" "HOL-Library.Multiset"
begin

section \<open>JavaScript primitives used by makeFileHierarchy.ts\<close>

text \<open>
  Strings are character lists; the module only compares characters with
  \<open>/\<close> and \<open>.\<close> and strings with each other. The only run-time failure
  the module can meet is a \<open>TypeError\<close>: calling a method that is
  \<open>undefined\<close>, or reading a property of \<open>undefined\<close>.
\<close>

datatype error = TypeError

text \<open>\<open>String.prototype.split(sep)\<close> for a one-character separator: the
  result is never empty, and the empty string gives one empty segment.\<close>

fun js_split :: "char \<Rightarrow> string \<Rightarrow> string list" where
  "js_split sep [] = [[]]"
| "js_split sep (c # cs) =
     (if c = sep then [] # js_split sep cs
      else (case js_split sep cs of
              [] \<Rightarrow> [[c]]
            | w # ws \<Rightarrow> (c # w) # ws))"

text \<open>\<open>Array.prototype.join(sep)\<close>.\<close>

fun js_join :: "char \<Rightarrow> string list \<Rightarrow> string" where
  "js_join sep [] = []"
| "js_join sep [x] = x"
| "js_join sep (x # y # ys) = x @ sep # js_join sep (y # ys)"

text \<open>\<open>String.prototype.includes\<close> with a one-character argument.\<close>

definition js_includes :: "string \<Rightarrow> char \<Rightarrow> bool" where
  "js_includes s c \<longleftrightarrow> c \<in> set s"

text \<open>\<open>x.startsWith(dir)\<close>.\<close>

fun startsWith :: "string \<Rightarrow> string \<Rightarrow> bool" where
  "startsWith x [] = True"
| "startsWith [] (d # ds) = False"
| "startsWith (c # cs) (d # ds) = (c = d \<and> startsWith cs ds)"

text \<open>\<open>Set.prototype.add\<close> on a set that is read back in insertion order
  (\<open>Array.from(dirs)\<close>).\<close>

definition set_add :: "'a \<Rightarrow> 'a list \<Rightarrow> 'a list" where
  "set_add x xs = (if x \<in> set xs then xs else xs @ [x])"

subsection \<open>Plain objects used as dictionaries\<close>

text \<open>
  An object literal is an association list of its own properties, in
  insertion order; \<open>map_of\<close> reads an own property and \<open>AList.update\<close>
  assigns one. A read of a key that is not an own property falls through
  to \<open>Object.prototype\<close>, whose property names are listed here: such a
  read gives a function (or, for \<open>__proto__\<close>, the prototype object), which
  is truthy and has none of the array methods or fields the module uses.
\<close>

definition object_prototype_keys :: "string list" where
  "object_prototype_keys =
     [''constructor'', ''__defineGetter__'', ''__defineSetter__'',
      ''hasOwnProperty'', ''__lookupGetter__'', ''__lookupSetter__'',
      ''isPrototypeOf'', ''propertyIsEnumerable'', ''toString'', ''valueOf'',
      ''__proto__'', ''toLocaleString'']"

definition inherited :: "string \<Rightarrow> bool" where
  "inherited k \<longleftrightarrow> k \<in> set object_prototype_keys"

text \<open>
  \<open>Object.values\<close> lists the own properties whose key is an array index
  (a canonical decimal numeral below \<open>2^32 - 1\<close>) first, in ascending numeric
  order, and then the other string keys in insertion order.
\<close>

definition decimal_value :: "string \<Rightarrow> int" where
  "decimal_value s = fold (\<lambda>c n. 10 * n + (of_char c - 48)) s 0"

definition is_array_index :: "string \<Rightarrow> bool" where
  "is_array_index s \<longleftrightarrow>
     s \<noteq> [] \<and> list_all (\<lambda>c. c \<in> set ''0123456789'') s
     \<and> (s = ''0'' \<or> hd s \<noteq> CHR ''0'')
     \<and> decimal_value s < 4294967295"

definition object_values :: "(string \<times> 'v) list \<Rightarrow> 'v list" where
  "object_values kvs =
     map snd (sort_key (\<lambda>kv. decimal_value (fst kv))
                (filter (\<lambda>kv. is_array_index (fst kv)) kvs)
              @ filter (\<lambda>kv. \<not> is_array_index (fst kv)) kvs)"

section \<open>The depth-grouped walker\<close>

datatype TreeNode =
    FileNode (name: string) (relative: string)
  | FolderNode (name: string) (relative: string) (files: "TreeNode list")

subsection \<open>charCount\<close>

fun charCount :: "string \<Rightarrow> char \<Rightarrow> nat" where
  "charCount [] letter = 0"
| "charCount (c # str) letter =
     (if c = letter then 1 + charCount str letter else charCount str letter)"

subsection \<open>getAllFolders\<close>

text \<open>
  One round of the outer loop. \<open>path.splice(0, path.length - 1)\<close> returns
  the elements it removes, that is all segments but the last. The inner loop
  adds \<open>dirOnly.slice(0, i + 1).join('/')\<close> for every index \<open>i\<close>.
\<close>

definition addFolders :: "string \<Rightarrow> string list \<Rightarrow> string list" where
  "addFolders file dirs =
     (let path = js_split CHR ''/'' file in
      if length path \<noteq> 0 then
        (let hasFileNode = js_includes (last path) CHR ''.'';
             dirOnly = (if hasFileNode then butlast path else path)
         in fold (\<lambda>i ds. set_add (js_join CHR ''/'' (take (i + 1) dirOnly)) ds)
                 [0 ..< length dirOnly] dirs)
      else dirs)"

definition getAllFolders :: "string list \<Rightarrow> string list" where
  "getAllFolders fs = fold addFolders fs []"

subsection \<open>getAllFileNodes\<close>

text \<open>
  One round of the loop. \<open>allFileNodes[dir]\<close> is an own array, or an
  inherited property (truthy, so the \<open>else\<close> branch calls its missing
  \<open>concat\<close>), or \<open>undefined\<close>. \<open>split[split.length - 1]\<close> on an empty
  array would be \<open>undefined\<close>, whose \<open>includes\<close> cannot be called. The
  destructuring \<open>[file, ...path] = split.reverse()\<close> is only reached with
  two segments or more. In the second \<open>if\<close> the name \<open>file\<close> is the loop
  variable again, the whole path.
\<close>

definition addFileNode ::
  "string \<Rightarrow> (string \<times> string list) list \<Rightarrow> error + (string \<times> string list) list" where
  "addFileNode file allFileNodes =
     (let split = js_split CHR ''/'' file in
      if split = [] then Inl TypeError
      else
        let isFileNode = js_includes (last split) CHR ''.'';
            isRoot = (length split = 1);
            isFileNodeInFolderNode = (length split > 1 \<and> js_includes (last split) CHR ''.'')
        in
        case (if isFileNodeInFolderNode then
                (let file' = hd (rev split);
                     path = tl (rev split);
                     dir = js_join CHR ''/'' (rev path)
                 in case map_of allFileNodes dir of
                      Some fs \<Rightarrow> Inr (AList.update dir (fs @ [file']) allFileNodes)
                    | None \<Rightarrow>
                        if inherited dir then Inl TypeError
                        else Inr (AList.update dir [file'] allFileNodes))
              else Inr allFileNodes) of
          Inl e \<Rightarrow> Inl e
        | Inr afn \<Rightarrow>
            if isFileNode \<and> isRoot then
              (case map_of afn ''/'' of
                 Some fs \<Rightarrow> Inr (AList.update ''/'' (fs @ [file]) afn)
               | None \<Rightarrow> Inl TypeError)
            else Inr afn)"

fun addFileNodes ::
  "string list \<Rightarrow> (string \<times> string list) list \<Rightarrow> error + (string \<times> string list) list" where
  "addFileNodes [] allFileNodes = Inr allFileNodes"
| "addFileNodes (file # fs) allFileNodes =
     (case addFileNode file allFileNodes of
        Inl e \<Rightarrow> Inl e
      | Inr afn \<Rightarrow> addFileNodes fs afn)"

definition getAllFileNodes :: "string list \<Rightarrow> error + (string \<times> string list) list" where
  "getAllFileNodes fs = addFileNodes fs [(''/'', [])]"

subsection \<open>makeFileHierarchy\<close>

text \<open>The reducer that groups the folders by their number of slashes.\<close>

definition groupByLength ::
  "string \<Rightarrow> (nat \<times> string list) list \<Rightarrow> (nat \<times> string list) list" where
  "groupByLength cur acc =
     (let count = charCount cur CHR ''/'' in
      case map_of acc count of
        None \<Rightarrow> AList.update count [cur] acc
      | Some xs \<Rightarrow> AList.update count (xs @ [cur]) acc)"

definition foldersByLength :: "string list \<Rightarrow> (nat \<times> string list) list" where
  "foldersByLength allFolderNodes = fold groupByLength allFolderNodes []"

text \<open>
  \<open>(allFileNodes[dir] || []).map(...)\<close>: an own array is mapped, a missing
  key gives the empty list, and an inherited property has no \<open>map\<close>.
\<close>

definition containedFiles :: "(string \<times> string list) list \<Rightarrow> string \<Rightarrow> error + string list" where
  "containedFiles allFileNodes dir =
     (case map_of allFileNodes dir of
        Some fs \<Rightarrow> Inr fs
      | None \<Rightarrow> if inherited dir then Inl TypeError else Inr [])"

text \<open>
  \<open>walk\<close> closes over \<open>foldersByLength\<close> and \<open>allFileNodes\<close>; here they are
  its first two arguments. \<open>None\<close> is the \<open>undefined\<close> that
  \<open>foldersByLength[0]\<close> gives when there is no folder at all. \<open>dirs.map\<close>
  handles the folders from left to right, and the first exception ends it.
\<close>

function walk ::
  "(nat \<times> string list) list \<Rightarrow> (string \<times> string list) list \<Rightarrow>
   string list option \<Rightarrow> nat \<Rightarrow> error + TreeNode list" where
  "walk fbl afn None depth = Inr []"
| "walk fbl afn (Some []) depth = Inr []"
| "walk fbl afn (Some (dir # dirs)) depth =
     (case (case map_of fbl (depth + 1) of
              Some nxt \<Rightarrow> walk fbl afn (Some (filter (\<lambda>x. startsWith x dir) nxt)) (depth + 1)
            | None \<Rightarrow> Inr []) of
        Inl e \<Rightarrow> Inl e
      | Inr nestedDirs \<Rightarrow>
          (case containedFiles afn dir of
             Inl e \<Rightarrow> Inl e
           | Inr fs \<Rightarrow>
               let containedFileNodes = map (\<lambda>file. FileNode file (dir @ ''/'' @ file)) fs;
                   dirname = hd (rev (js_split CHR ''/'' dir))
               in (case walk fbl afn (Some dirs) depth of
                     Inl e \<Rightarrow> Inl e
                   | Inr rest \<Rightarrow>
                       Inr (FolderNode dirname dir (nestedDirs @ containedFileNodes) # rest))))"
  by pat_completeness auto
termination
proof (relation "measures [\<lambda>(fbl, afn, dirs, depth). Suc (Max (insert 0 (fst ` set fbl))) - depth,
                           \<lambda>(fbl, afn, dirs, depth). case dirs of None \<Rightarrow> 0 | Some ds \<Rightarrow> length ds]")
  show "wf (measures [\<lambda>(fbl, afn, dirs, depth). Suc (Max (insert 0 (fst ` set fbl))) - depth,
                      \<lambda>(fbl, afn, dirs, depth). case dirs of None \<Rightarrow> 0 | Some ds \<Rightarrow> length ds])"
    by simp
next
  fix fbl :: "(nat \<times> string list) list" and afn :: "(string \<times> string list) list"
    and dir :: string and dirs :: "string list" and depth :: nat and x2 :: "string list"
  assume "map_of fbl (depth + 1) = Some x2"
  then have "depth + 1 \<in> fst ` set fbl"
    by (metis domI dom_map_of_conv_image_fst)
  then have "depth + 1 \<le> Max (insert 0 (fst ` set fbl))"
    by (intro Max_ge) auto
  then show "((fbl, afn, Some (filter (\<lambda>x. startsWith x dir) x2), depth + 1),
              (fbl, afn, Some (dir # dirs), depth))
             \<in> measures [\<lambda>(fbl, afn, dirs, depth). Suc (Max (insert 0 (fst ` set fbl))) - depth,
                          \<lambda>(fbl, afn, dirs, depth). case dirs of None \<Rightarrow> 0 | Some ds \<Rightarrow> length ds]"
    by simp arith
next
  fix fbl :: "(nat \<times> string list) list" and afn :: "(string \<times> string list) list"
    and dir :: string and dirs :: "string list" and depth :: nat
  show "((fbl, afn, Some dirs, depth), (fbl, afn, Some (dir # dirs), depth))
        \<in> measures [\<lambda>(fbl, afn, dirs, depth). Suc (Max (insert 0 (fst ` set fbl))) - depth,
                     \<lambda>(fbl, afn, dirs, depth). case dirs of None \<Rightarrow> 0 | Some ds \<Rightarrow> length ds]"
    by simp
qed

definition makeFileHierarchy :: "string list \<Rightarrow> error + TreeNode list" where
  "makeFileHierarchy fs =
     (let allFolderNodes = getAllFolders fs in
      case getAllFileNodes fs of
        Inl e \<Rightarrow> Inl e
      | Inr allFileNodes \<Rightarrow>
          let fbl = foldersByLength allFolderNodes
          in walk fbl allFileNodes (map_of fbl 0) 0)"

section \<open>The incremental trie builder\<close>

record BuildingFile =
  file_name :: string
  file_path :: string

datatype BuildingFolder =
  BuildingFolder (folder_name: string) (folder_path: string)
    (folder_files: "BuildingFile list") (folders: "(string \<times> BuildingFolder) list")

datatype Tree =
    TreeFile (tree_id: string) (tree_name: string)
  | TreeFolder (tree_id: string) (tree_name: string) (children: "Tree list")

subsection \<open>The root folder's name\<close>

text \<open>
  \<open>None\<close> is \<open>undefined\<close>. The empty string is falsy, so an empty last
  segment sends the code to the segment before it, when there is one.
\<close>

definition rootName :: "string \<Rightarrow> string option" where
  "rootName rootDirectory =
     (let rootPathParts = js_split CHR ''/'' rootDirectory;
          lastRootPart = last rootPathParts
      in if lastRootPart \<noteq> [] then Some lastRootPart
         else if length rootPathParts > 1
              then Some (rootPathParts ! (length rootPathParts - 2))
              else None)"

subsection \<open>Inserting one path\<close>

text \<open>
  The inner loop over \<open>pathParts\<close>, as a recursion that follows
  \<open>parentDirectory\<close> down the trie: \<open>seen\<close> is \<open>pathParts.slice(0, i)\<close> and
  the list argument after it is \<open>pathParts.slice(i)\<close>. The source mutates
  the folder it has reached; the model returns the updated folder and stores
  it back under the same key. \<open>part in parentDirectory.folders\<close> is also
  true of an inherited property: the code then moves to a value that has
  neither \<open>files\<close> nor \<open>folders\<close>, and the next round, which exists because
  \<open>part\<close> was not the last segment, raises.
\<close>

fun insertPath ::
  "string \<Rightarrow> string list \<Rightarrow> string list \<Rightarrow> BuildingFolder \<Rightarrow> error + BuildingFolder" where
  "insertPath filePath seen [] parentDirectory = Inr parentDirectory"
| "insertPath filePath seen [part] (BuildingFolder n p fs ds) =
     Inr (BuildingFolder n p (fs @ [\<lparr>file_name = part, file_path = filePath\<rparr>]) ds)"
| "insertPath filePath seen (part # rest) (BuildingFolder n p fs ds) =
     (case map_of ds part of
        Some sub \<Rightarrow>
          (case insertPath filePath (seen @ [part]) rest sub of
             Inl e \<Rightarrow> Inl e
           | Inr sub' \<Rightarrow> Inr (BuildingFolder n p fs (AList.update part sub' ds)))
      | None \<Rightarrow>
          if inherited part then Inl TypeError
          else
            let newDirectory =
                  BuildingFolder part (js_join CHR ''/'' (seen @ [part])) [] []
            in (case insertPath filePath (seen @ [part]) rest newDirectory of
                  Inl e \<Rightarrow> Inl e
                | Inr sub' \<Rightarrow> Inr (BuildingFolder n p fs (AList.update part sub' ds))))"

text \<open>The outer loop over \<open>filePaths\<close>.\<close>

fun insertAll :: "string list \<Rightarrow> BuildingFolder \<Rightarrow> error + BuildingFolder" where
  "insertAll [] rootFolder = Inr rootFolder"
| "insertAll (filePath # filePaths) rootFolder =
     (case insertPath filePath [] (js_split CHR ''/'' filePath) rootFolder of
        Inl e \<Rightarrow> Inl e
      | Inr r \<Rightarrow> insertAll filePaths r)"

subsection \<open>convertTree and buildTree\<close>



function convertTree :: "BuildingFolder \<Rightarrow> Tree" where
  "convertTree (BuildingFolder n p fs ds) =
     TreeFolder p n
       (map convertTree (object_values ds)
        @ map (\<lambda>f. TreeFile (file_path f) (file_name f)) fs)"
  by pat_completeness auto
termination
proof (relation "measure size")
  show "wf (measure size)" by simp
next
  fix n p :: string and fs :: "BuildingFile list"
    and ds :: "(string \<times> BuildingFolder) list" and x :: BuildingFolder
  assume "x \<in> set (object_values ds)"
  then obtain k where "(k, x) \<in> set ds"
    by (auto simp: object_values_def)
  then have "size x < Suc (size_list (size_prod (\<lambda>_. 0) size) ds)"
    by (induction ds) auto
  then show "(x, BuildingFolder n p fs ds) \<in> measure size"
    by simp
qed

definition buildTree :: "string list \<Rightarrow> string \<Rightarrow> error + Tree" where
  "buildTree filePaths rootDirectory =
     (let rootFolder =
            BuildingFolder (case rootName rootDirectory of Some n \<Rightarrow> n | None \<Rightarrow> ''/'')
              rootDirectory [] []
      in case insertAll filePaths rootFolder of
           Inl e \<Rightarrow> Inl e
         | Inr r \<Rightarrow> Inr (convertTree r))"

section \<open>Reading the output trees\<close>

subsection \<open>The forest of makeFileHierarchy\<close>

text \<open>
  The file nodes of a forest, from left to right, each with the \<open>relative\<close>
  fields of the folders that enclose it, outermost first.
\<close>

fun enclosed :: "string list \<Rightarrow> TreeNode \<Rightarrow> (string list \<times> TreeNode) list" where
  "enclosed chain (FileNode n r) = [(chain, FileNode n r)]"
| "enclosed chain (FolderNode n r fs) = concat (map (enclosed (chain @ [r])) fs)"

definition forestFiles :: "TreeNode list \<Rightarrow> (string list \<times> TreeNode) list" where
  "forestFiles forest = concat (map (enclosed []) forest)"

fun isFileNode :: "TreeNode \<Rightarrow> bool" where
  "isFileNode (FileNode n r) = True"
| "isFileNode (FolderNode n r fs) = False"

text \<open>The folder nodes of a forest, each before the folder nodes inside it.\<close>

fun folderNodes :: "TreeNode \<Rightarrow> TreeNode list" where
  "folderNodes (FileNode n r) = []"
| "folderNodes (FolderNode n r fs) = FolderNode n r fs # concat (map folderNodes fs)"

definition forestFolders :: "TreeNode list \<Rightarrow> TreeNode list" where
  "forestFolders forest = concat (map folderNodes forest)"

text \<open>In every folder of the node, the file nodes among its entries have different names.\<close>

fun siblingFileNodes :: "TreeNode \<Rightarrow> bool" where
  "siblingFileNodes (FileNode n r) = True"
| "siblingFileNodes (FolderNode n r fs) =
     (distinct (map name (filter isFileNode fs)) \<and> list_all siblingFileNodes fs)"

text \<open>
  How \<open>getAllFolders\<close> and \<open>getAllFileNodes\<close> read one input path: whether
  its last segment has a dot, the key under which \<open>getAllFileNodes\<close> then
  registers it (the root key \<open>/\<close> for a single segment, the joined directory
  segments otherwise), and the directory segments \<open>getAllFolders\<close> keeps.
  \<open>filesUnder\<close> is \<open>allFileNodes[key] || []\<close> for an own key.
\<close>

definition isFile :: "string \<Rightarrow> bool" where
  "isFile p = js_includes (last (js_split CHR ''/'' p)) CHR ''.''"

definition fileKey :: "string \<Rightarrow> string" where
  "fileKey p =
     (if length (js_split CHR ''/'' p) = 1 then ''/''
      else js_join CHR ''/'' (butlast (js_split CHR ''/'' p)))"

definition filesUnder :: "(string \<times> string list) list \<Rightarrow> string \<Rightarrow> string list" where
  "filesUnder afn key = (case map_of afn key of None \<Rightarrow> [] | Some fs \<Rightarrow> fs)"

definition dirOnly :: "string \<Rightarrow> string list" where
  "dirOnly file =
     (let path = js_split CHR ''/'' file
      in if js_includes (last path) CHR ''.'' then butlast path else path)"

definition folderPrefixes :: "string \<Rightarrow> string list" where
  "folderPrefixes file =
     map (\<lambda>i. js_join CHR ''/'' (take (i + 1) (dirOnly file))) [0 ..< length (dirOnly file)]"

text \<open>
  The two halves of one round of \<open>dirs.map\<close> in \<open>walk\<close>: the recursive call
  for the nested folders, and the folder node that the round returns.
\<close>

definition nestedDirs ::
  "(nat \<times> string list) list \<Rightarrow> (string \<times> string list) list \<Rightarrow> string \<Rightarrow> nat
   \<Rightarrow> error + TreeNode list" where
  "nestedDirs fbl afn dir depth =
     (case map_of fbl (depth + 1) of
        Some nxt \<Rightarrow> walk fbl afn (Some (filter (\<lambda>x. startsWith x dir) nxt)) (depth + 1)
      | None \<Rightarrow> Inr [])"

definition folderNodeOf :: "string \<Rightarrow> TreeNode list \<Rightarrow> string list \<Rightarrow> TreeNode" where
  "folderNodeOf dir nested fs =
     FolderNode (hd (rev (js_split CHR ''/'' dir))) dir
       (nested @ map (\<lambda>file. FileNode file (dir @ ''/'' @ file)) fs)"

text \<open>
  What \<open>walk\<close> guarantees of a file node and its chain of enclosing folders:
  the node is a file registered under its innermost folder \<open>dir\<close>, and \<open>dir\<close>
  comes from the folder list of the level at which it sits.
\<close>

definition leafShape ::
  "(nat \<times> string list) list \<Rightarrow> (string \<times> string list) list \<Rightarrow> string list \<Rightarrow> nat
   \<Rightarrow> string list \<times> TreeNode \<Rightarrow> bool" where
  "leafShape fbl afn dirs depth cl \<longleftrightarrow>
     (\<exists>dir file. snd cl = FileNode file (dir @ ''/'' @ file)
        \<and> file \<in> set (filesUnder afn dir)
        \<and> fst cl \<noteq> [] \<and> last (fst cl) = dir
        \<and> (if length (fst cl) = 1 then dir \<in> set dirs
            else \<exists>nxt. map_of fbl (depth + length (fst cl) - 1) = Some nxt \<and> dir \<in> set nxt))"

subsection \<open>The tree of buildTree\<close>

text \<open>The \<open>TreeFile\<close> leaves of a tree, from left to right.\<close>

fun treeFiles :: "Tree \<Rightarrow> Tree list" where
  "treeFiles (TreeFile i n) = [TreeFile i n]"
| "treeFiles (TreeFolder i n cs) = concat (map treeFiles cs)"

fun isFolder :: "Tree \<Rightarrow> bool" where
  "isFolder (TreeFile i n) = False"
| "isFolder (TreeFolder i n cs) = True"

text \<open>
  The children list of the folder reached from the root by a list of folder
  names; empty when there is no such folder.
\<close>

fun childrenAt :: "string list \<Rightarrow> Tree \<Rightarrow> Tree list" where
  "childrenAt ks (TreeFile i n) = []"
| "childrenAt [] (TreeFolder i n cs) = cs"
| "childrenAt (k # ks) (TreeFolder i n cs) =
     (case find (\<lambda>c. isFolder c \<and> tree_name c = k) cs of
        None \<Rightarrow> []
      | Some c \<Rightarrow> childrenAt ks c)"

text \<open>
  In every folder of the tree, the folders among its children have different
  names (\<open>siblingFolders\<close>), and so have the files among them
  (\<open>siblingFiles\<close>).
\<close>

fun siblingFolders :: "Tree \<Rightarrow> bool" where
  "siblingFolders (TreeFile i n) = True"
| "siblingFolders (TreeFolder i n cs) =
     (distinct (map tree_name (filter isFolder cs)) \<and> list_all siblingFolders cs)"

fun siblingFiles :: "Tree \<Rightarrow> bool" where
  "siblingFiles (TreeFile i n) = True"
| "siblingFiles (TreeFolder i n cs) =
     (distinct (map tree_name (filter (\<lambda>c. \<not> isFolder c) cs)) \<and> list_all siblingFiles cs)"

subsection \<open>The trie before its conversion\<close>

text \<open>
  All files of a trie; the files of the folder at a location, given as the
  list of keys that lead to it; and the two invariants of the build: the keys
  of a folder are distinct and each is the name of the folder stored under it
  (\<open>wf_trie\<close>), and a file stored at a location has the segments of that
  location followed by its own name as its path (\<open>located\<close>).
\<close>

fun trieFiles :: "BuildingFolder \<Rightarrow> BuildingFile list" where
  "trieFiles (BuildingFolder n p fs ds) = fs @ concat (map (\<lambda>kv. trieFiles (snd kv)) ds)"

fun filesAt :: "string list \<Rightarrow> BuildingFolder \<Rightarrow> BuildingFile list" where
  "filesAt [] f = folder_files f"
| "filesAt (k # ks) f = (case map_of (folders f) k of None \<Rightarrow> [] | Some sub \<Rightarrow> filesAt ks sub)"

fun wf_trie :: "BuildingFolder \<Rightarrow> bool" where
  "wf_trie (BuildingFolder n p fs ds) \<longleftrightarrow>
     distinct (map fst ds) \<and> (\<forall>kv \<in> set ds. folder_name (snd kv) = fst kv \<and> wf_trie (snd kv))"

fun located :: "string list \<Rightarrow> BuildingFolder \<Rightarrow> bool" where
  "located loc (BuildingFolder n p fs ds) \<longleftrightarrow>
     (\<forall>b \<in> set fs. js_split CHR ''/'' (file_path b) = loc @ [file_name b])
     \<and> (\<forall>kv \<in> set ds. located (loc @ [fst kv]) (snd kv))"

section \<open>The two scenarios of the specification\<close>

text \<open>
  C4. \<open>buildTree(['x/y/z.js'], 'root')\<close> returns the root folder \<open>root\<close> with the
  single chain of folders \<open>x\<close> (id \<open>x\<close>), \<open>y\<close> (id \<open>x/y\<close>) down to the file
  \<open>z.js\<close> (id \<open>x/y/z.js\<close>).
\<close>

theorem buildTree_scenario:
  "buildTree [''x/y/z.js''] ''root'' =
     Inr (TreeFolder ''root'' ''root''
            [TreeFolder ''x'' ''x''
               [TreeFolder ''x/y'' ''y'' [TreeFile ''x/y/z.js'' ''z.js'']]])"
  by code_simp

text \<open>
  C3, as the specification states it, puts a file named \<open>bar\<close> into the folder
  \<open>foo\<close>. The only file node of the forest is \<open>bar.js\<close>: no file node is named
  \<open>bar\<close>.
\<close>

theorem forest_scenario_no_file_bar:
  "makeFileHierarchy [''foo.js'', ''foo/y/bar.js'', ''foo/bar'', ''a/b/c'']
     = Inr [FolderNode ''foo'' ''foo''
              [FolderNode ''y'' ''foo/y'' [FileNode ''bar.js'' ''foo/y/bar.js''],
               FolderNode ''bar'' ''foo/bar'' []],
            FolderNode ''a'' ''a''
              [FolderNode ''b'' ''a/b'' [FolderNode ''c'' ''a/b/c'' []]]]
   \<and> map (name \<circ> snd)
         (forestFiles
            [FolderNode ''foo'' ''foo''
               [FolderNode ''y'' ''foo/y'' [FileNode ''bar.js'' ''foo/y/bar.js''],
                FolderNode ''bar'' ''foo/bar'' []],
             FolderNode ''a'' ''a''
               [FolderNode ''b'' ''a/b'' [FolderNode ''c'' ''a/b/c'' []]]])
       = [''bar.js'']
   \<and> ''bar'' \<notin> set [''bar.js'']"
  by code_simp

text \<open>
  C3, amended. On \<open>['foo.js', 'foo/y/bar.js', 'foo/bar', 'a/b/c']\<close>,
  \<open>getAllFolders\<close> returns \<open>foo\<close>, \<open>foo/y\<close>, \<open>foo/bar\<close>, \<open>a\<close>, \<open>a/b\<close>, \<open>a/b/c\<close>;
  the forest is the folder \<open>foo\<close>, holding the folder \<open>y\<close> with the file
  \<open>bar.js\<close> and the empty folder \<open>bar\<close>, and the folder \<open>a\<close>, holding \<open>b\<close>,
  holding the empty folder \<open>c\<close>; and \<open>getAllFileNodes\<close> has \<open>['foo.js']\<close>
  under its root key \<open>/\<close>.
\<close>

theorem forest_scenario:
  "getAllFolders [''foo.js'', ''foo/y/bar.js'', ''foo/bar'', ''a/b/c'']
     = [''foo'', ''foo/y'', ''foo/bar'', ''a'', ''a/b'', ''a/b/c'']
   \<and> makeFileHierarchy [''foo.js'', ''foo/y/bar.js'', ''foo/bar'', ''a/b/c'']
     = Inr [FolderNode ''foo'' ''foo''
              [FolderNode ''y'' ''foo/y'' [FileNode ''bar.js'' ''foo/y/bar.js''],
               FolderNode ''bar'' ''foo/bar'' []],
            FolderNode ''a'' ''a''
              [FolderNode ''b'' ''a/b'' [FolderNode ''c'' ''a/b/c'' []]]]
   \<and> getAllFileNodes [''foo.js'', ''foo/y/bar.js'', ''foo/bar'', ''a/b/c'']
     = Inr [(''/'', [''foo.js'']), (''foo/y'', [''bar.js''])]"
  by code_simp

section \<open>Boundary inputs\<close>

text \<open>
  C6. On the empty input neither function raises: \<open>makeFileHierarchy([])\<close> is
  the empty forest, and \<open>buildTree([], 'root')\<close> is the folder \<open>root\<close> without
  children.
\<close>

theorem empty_input:
  "makeFileHierarchy [] = Inr []
   \<and> buildTree [] ''root'' = Inr (TreeFolder ''root'' ''root'' [])"
  by code_simp

text \<open>
  C5, evaluated where it fails. For the root directory \<open>/\<close> the last segment
  is empty, the segment before it is empty too, and the empty string is not
  \<open>undefined\<close>: the root folder's name is the empty string, not \<open>/\<close>. For
  \<open>a//\<close> the name is empty as well, not the last non-empty segment \<open>a\<close>.
\<close>

theorem root_name_of_slash:
  "buildTree [] ''/'' = Inr (TreeFolder ''/'' '''' [])
   \<and> buildTree [] ''a//'' = Inr (TreeFolder ''a//'' '''' [])"
  by code_simp

section \<open>The trie builder and its root directory\<close>

lemma insertAll_append:
  "insertAll (ps @ qs) f =
     (case insertAll ps f of Inl e \<Rightarrow> Inl e | Inr f' \<Rightarrow> insertAll qs f')"
  by (induction ps arbitrary: f) (auto split: sum.splits)

lemma convertTree_sel [simp]:
  "tree_id (convertTree f) = folder_path f"
  "tree_name (convertTree f) = folder_name f"
  "children (convertTree f) =
     map convertTree (object_values (folders f))
     @ map (\<lambda>b. TreeFile (file_path b) (file_name b)) (folder_files f)"
  by (cases f; simp)+

text \<open>Inserting a path never reads the name or the path of the folder it starts from.\<close>

lemma insertPath_relabel:
  "insertPath filePath seen parts (BuildingFolder n' p' fs ds) =
     (case insertPath filePath seen parts (BuildingFolder n p fs ds) of
        Inl e \<Rightarrow> Inl e
      | Inr f \<Rightarrow> Inr (BuildingFolder n' p' (folder_files f) (folders f)))"
proof (cases parts)
  case Nil
  then show ?thesis by simp
next
  case (Cons part rest)
  then show ?thesis
    by (cases rest) (auto split: option.splits sum.splits simp: Let_def)
qed

lemma insertAll_relabel:
  "insertAll ps (BuildingFolder n' p' fs ds) =
     (case insertAll ps (BuildingFolder n p fs ds) of
        Inl e \<Rightarrow> Inl e
      | Inr f \<Rightarrow> Inr (BuildingFolder n' p' (folder_files f) (folders f)))"
proof (induction ps arbitrary: fs ds)
  case Nil
  show ?case by simp
next
  case (Cons q ps)
  show ?case
  proof (cases "insertPath q [] (js_split CHR ''/'' q) (BuildingFolder n p fs ds)")
    case (Inl e)
    then show ?thesis
      using insertPath_relabel [of q "[]" "js_split CHR ''/'' q" n' p' fs ds n p] by simp
  next
    case (Inr f)
    obtain n1 p1 fs1 ds1 where f: "f = BuildingFolder n1 p1 fs1 ds1" by (cases f)
    have n1: "n1 = n" "p1 = p"
      using Inr insertPath_relabel [of q "[]" "js_split CHR ''/'' q" n p fs ds n p]
      by (simp_all add: f)
    show ?thesis
      using Inr insertPath_relabel [of q "[]" "js_split CHR ''/'' q" n' p' fs ds n p]
        Cons.IH [of fs1 ds1]
      by (simp add: f n1)
  qed
qed

text \<open>
  C9. The tree for a root directory \<open>r2\<close> is the tree for any other root
  directory \<open>r1\<close> with the id and the name of the root node replaced: both
  calls raise or neither does, and the children lists, hence the ids of all
  nodes below the root, are the same.
\<close>

theorem buildTree_root_only:
  "buildTree ps r2 =
     (case buildTree ps r1 of
        Inl e \<Rightarrow> Inl e
      | Inr t \<Rightarrow> Inr (TreeFolder r2 (case rootName r2 of Some n \<Rightarrow> n | None \<Rightarrow> ''/'')
                      (children t)))"
  unfolding buildTree_def Let_def
  using insertAll_relabel [of ps "case rootName r2 of Some n \<Rightarrow> n | None \<Rightarrow> ''/''" r2 "[]" "[]"
      "case rootName r1 of Some n \<Rightarrow> n | None \<Rightarrow> ''/''" r1]
  by (auto split: sum.splits)

section \<open>Facts about the primitives\<close>

subsection \<open>Splitting, joining and counting\<close>

lemma js_split_not_Nil [simp]: "js_split sep s \<noteq> []"
  by (induction s) (auto split: list.splits)

lemma js_join_split [simp]: "js_join sep (js_split sep s) = s"
proof (induction s)
  case Nil
  show ?case by simp
next
  case (Cons c cs)
  obtain w ws where w: "js_split sep cs = w # ws"
    by (cases "js_split sep cs") simp_all
  from Cons w show ?case by (cases ws) auto
qed

lemma js_split_no_sep: "seg \<in> set (js_split sep s) \<Longrightarrow> sep \<notin> set seg"
  by (induction s arbitrary: seg) (auto split: if_splits list.splits)

lemma js_split_append:
  "js_split sep (xs @ sep # ys) = js_split sep xs @ js_split sep ys"
proof (induction xs)
  case Nil
  show ?case by simp
next
  case (Cons c cs)
  obtain w ws where w: "js_split sep cs = w # ws"
    by (cases "js_split sep cs") simp_all
  with Cons show ?case by simp
qed

lemma last_split_no_sep: "sep \<notin> set (last (js_split sep q))"
  by (rule js_split_no_sep [of _ sep q]) simp

lemma charCount_append [simp]: "charCount (xs @ ys) c = charCount xs c + charCount ys c"
  by (induction xs) auto

lemma charCount_zero_iff: "charCount s c = 0 \<longleftrightarrow> c \<notin> set s"
  by (induction s) auto

lemma length_js_split: "length (js_split sep s) = Suc (charCount s sep)"
  by (induction s) (auto split: list.splits)

lemma js_split_single: "sep \<notin> set s \<Longrightarrow> js_split sep s = [s]"
  by (induction s) (auto split: list.splits)

lemma js_join_snoc: "js_join sep (xs @ [x]) = (if xs = [] then x else js_join sep xs @ sep # x)"
  by (induction sep xs rule: js_join.induct) auto

lemma charCount_js_join:
  "\<forall>seg \<in> set segs. sep \<notin> set seg \<Longrightarrow> charCount (js_join sep segs) sep = length segs - 1"
  by (induction sep segs rule: js_join.induct) (auto simp: charCount_zero_iff)

lemma startsWith_append [simp]: "startsWith (xs @ ys) xs"
  by (induction xs) auto

lemma join_butlast_last:
  "length (js_split sep q) \<noteq> 1 \<Longrightarrow>
   js_join sep (butlast (js_split sep q)) @ sep # last (js_split sep q) = q"
proof -
  assume len: "length (js_split sep q) \<noteq> 1"
  have ne: "js_split sep q \<noteq> []" by simp
  with len have "butlast (js_split sep q) \<noteq> []"
    by (cases "js_split sep q" rule: rev_cases) auto
  then have "js_join sep (butlast (js_split sep q) @ [last (js_split sep q)])
             = js_join sep (butlast (js_split sep q)) @ sep # last (js_split sep q)"
    by (simp only: js_join_snoc if_False)
  moreover have "butlast (js_split sep q) @ [last (js_split sep q)] = js_split sep q"
    by simp
  ultimately show ?thesis by (simp only: js_join_split)
qed

lemma prefix_facts:
  assumes "1 \<le> j" "j \<le> length segs" "\<forall>seg \<in> set segs. CHR ''/'' \<notin> set seg"
  shows "charCount (js_join CHR ''/'' (take j segs)) CHR ''/'' = j - 1"
    and "j < length segs \<Longrightarrow>
           startsWith (js_join CHR ''/'' (take (Suc j) segs)) (js_join CHR ''/'' (take j segs))"
proof -
  have "\<forall>seg \<in> set (take j segs). CHR ''/'' \<notin> set seg"
    using assms(3) by (meson in_set_takeD)
  then show "charCount (js_join CHR ''/'' (take j segs)) CHR ''/'' = j - 1"
    using assms(2) by (simp add: charCount_js_join)
  assume lt: "j < length segs"
  have "take j segs \<noteq> []" using assms(1) lt by (cases segs) auto
  then have "js_join CHR ''/'' (take (Suc j) segs)
        = js_join CHR ''/'' (take j segs) @ CHR ''/'' # segs ! j"
    using lt by (simp add: take_Suc_conv_app_nth js_join_snoc)
  then show "startsWith (js_join CHR ''/'' (take (Suc j) segs)) (js_join CHR ''/'' (take j segs))"
    by simp
qed

subsection \<open>Lists and association lists\<close>

lemma update_absent: "map_of ds k = None \<Longrightarrow> AList.update k v ds = ds @ [(k, v)]"
  by (induction ds) (auto split: if_splits)

lemma update_present:
  "map_of ds k = Some v \<Longrightarrow>
   \<exists>xs ys. ds = xs @ (k, v) # ys \<and> k \<notin> fst ` set xs \<and> (\<forall>v'. AList.update k v' ds = xs @ (k, v') # ys)"
proof (induction ds)
  case Nil
  then show ?case by simp
next
  case (Cons a ds)
  show ?case
  proof (cases "fst a = k")
    case True
    with Cons.prems have "a = (k, v)" by (cases a) auto
    then have "a # ds = [] @ (k, v) # ds \<and> k \<notin> fst ` set [] \<and> (\<forall>v'. AList.update k v' (a # ds) = [] @ (k, v') # ds)"
      by simp
    then show ?thesis by blast
  next
    case False
    with Cons.prems have "map_of ds k = Some v" by (cases a) (auto split: if_splits)
    from Cons.IH [OF this] obtain xs ys where
      "ds = xs @ (k, v) # ys" "k \<notin> fst ` set xs" "\<forall>v'. AList.update k v' ds = xs @ (k, v') # ys"
      by blast
    with False have "a # ds = (a # xs) @ (k, v) # ys \<and> k \<notin> fst ` set (a # xs)
        \<and> (\<forall>v'. AList.update k v' (a # ds) = (a # xs) @ (k, v') # ys)"
      by (cases a) auto
    then show ?thesis by blast
  qed
qed

lemma update_set_subset: "set (AList.update k v ds) \<subseteq> insert (k, v) (set ds)"
  by (induction ds) auto

lemma sum_list_mset_cong:
  fixes h :: "'a \<Rightarrow> 'b multiset"
  assumes "mset xs = mset ys"
  shows "sum_list (map h xs) = sum_list (map h ys)"
proof -
  have "sum_list (map h zs) = sum_mset (image_mset h (mset zs))" for zs
    by (induction zs) simp_all
  then show ?thesis using assms by simp
qed

lemma distinct_map_concat_part:
  "distinct (map g (concat xss)) \<Longrightarrow> xs \<in> set xss \<Longrightarrow> distinct (map g xs)"
  by (induction xss) auto

lemma distinct_map_outer: "distinct (map (\<lambda>x. f (g x)) xs) \<Longrightarrow> distinct (map g xs)"
  by (induction xs) auto

lemma find_Some_holds: "find P xs = Some x \<Longrightarrow> P x \<and> x \<in> set xs"
  by (induction xs) (auto split: if_splits)

lemma count_list_filter: "count_list (filter P xs) x = (if P x then count_list xs x else 0)"
  by (induction xs) auto

lemma count_list_map_ge: "count_list xs x \<le> count_list (map f xs) (f x)"
  by (induction xs) auto

lemma mset_object_values: "mset (object_values kvs) = mset (map snd kvs)"
proof -
  have "mset (object_values kvs) = image_mset snd (filter_mset (\<lambda>kv. is_array_index (fst kv)) (mset kvs))
           + image_mset snd (filter_mset (\<lambda>kv. \<not> is_array_index (fst kv)) (mset kvs))"
    by (simp add: object_values_def)
  also have "\<dots> = image_mset snd (filter_mset (\<lambda>kv. is_array_index (fst kv)) (mset kvs)
           + filter_mset (\<lambda>kv. \<not> is_array_index (fst kv)) (mset kvs))"
    by (simp only: image_mset_union)
  also have "\<dots> = image_mset snd (mset kvs)"
    by simp
  finally show ?thesis by simp
qed

lemma set_object_values: "set (object_values kvs) = snd ` set kvs"
  by (auto simp: object_values_def)

section \<open>The trie and its conversion\<close>

subsection \<open>The files of the trie\<close>

lemma buildTree_Inr:
  "buildTree ps r = Inr t \<Longrightarrow>
   \<exists>f. insertAll ps (BuildingFolder (case rootName r of Some n \<Rightarrow> n | None \<Rightarrow> ''/'') r [] []) = Inr f
       \<and> t = convertTree f"
  by (auto simp: buildTree_def split: sum.splits)

lemma insertPath_files:
  "insertPath fp seen parts f = Inr f' \<Longrightarrow> parts \<noteq> [] \<Longrightarrow>
   mset (trieFiles f') = mset (trieFiles f) + {#\<lparr>file_name = last parts, file_path = fp\<rparr>#}"
proof (induction parts arbitrary: seen f f')
  case Nil
  then show ?case by simp
next
  case (Cons part rest)
  obtain n p fs ds where f: "f = BuildingFolder n p fs ds" by (cases f)
  show ?case
  proof (cases rest)
    case Nil
    with Cons.prems f show ?thesis by auto
  next
    case (Cons r rs)
    note rest = this
    show ?thesis
    proof (cases "map_of ds part")
      case None
      with Cons.prems(1) f rest obtain sub' where
        ins: "insertPath fp (seen @ [part]) rest (BuildingFolder part (js_join CHR ''/'' (seen @ [part])) [] []) = Inr sub'"
        and f': "f' = BuildingFolder n p fs (AList.update part sub' ds)"
        by (auto split: if_splits sum.splits simp: Let_def)
      have "mset (trieFiles sub') = {#\<lparr>file_name = last rest, file_path = fp\<rparr>#}"
        using Cons.IH [OF ins] rest by simp
      then show ?thesis
        using f f' rest None by (simp add: update_absent)
    next
      case (Some sub)
      with Cons.prems(1) f rest obtain sub' where
        ins: "insertPath fp (seen @ [part]) rest sub = Inr sub'"
        and f': "f' = BuildingFolder n p fs (AList.update part sub' ds)"
        by (auto split: sum.splits)
      have IH: "mset (trieFiles sub') = mset (trieFiles sub) + {#\<lparr>file_name = last rest, file_path = fp\<rparr>#}"
        using Cons.IH [OF ins] rest by simp
      from update_present [OF Some] obtain xs ys where
        ds: "ds = xs @ (part, sub) # ys" and upd: "AList.update part sub' ds = xs @ (part, sub') # ys"
        by blast
      show ?thesis
        unfolding f f' upd using IH rest by (simp add: ds)
    qed
  qed
qed

lemma insertAll_files:
  "insertAll ps f = Inr f' \<Longrightarrow>
   mset (trieFiles f') = mset (trieFiles f)
     + mset (map (\<lambda>p. \<lparr>file_name = last (js_split CHR ''/'' p), file_path = p\<rparr>) ps)"
proof (induction ps arbitrary: f)
  case Nil
  then show ?case by simp
next
  case (Cons q ps)
  then obtain g where g: "insertPath q [] (js_split CHR ''/'' q) f = Inr g" and r: "insertAll ps g = Inr f'"
    by (auto split: sum.splits)
  show ?case
    using insertPath_files [OF g] Cons.IH [OF r] by simp
qed

lemma convertTree_files:
  "mset (treeFiles (convertTree f)) =
     image_mset (\<lambda>b. TreeFile (file_path b) (file_name b)) (mset (trieFiles f))"
proof (induction f rule: convertTree.induct)
  case (1 n p fs ds)
  define h where "h x = image_mset (\<lambda>b. TreeFile (file_path b) (file_name b)) (mset (trieFiles x))" for x
  have a: "concat (map treeFiles (map (\<lambda>b. TreeFile (file_path b) (file_name b)) fs))
           = map (\<lambda>b. TreeFile (file_path b) (file_name b)) fs"
    by (induction fs) auto
  have "mset (concat (map treeFiles (map convertTree (object_values ds))))
        = sum_list (map (\<lambda>x. mset (treeFiles (convertTree x))) (object_values ds))"
    by (simp add: mset_concat comp_def)
  also have "\<dots> = sum_list (map h (object_values ds))"
    using 1 by (intro arg_cong [where f = sum_list] map_cong) (auto simp: h_def)
  also have "\<dots> = sum_list (map h (map snd ds))"
    by (rule sum_list_mset_cong) (rule mset_object_values)
  also have "\<dots> = image_mset (\<lambda>b. TreeFile (file_path b) (file_name b))
                      (mset (concat (map (\<lambda>kv. trieFiles (snd kv)) ds)))"
    by (induction ds) (auto simp: h_def)
  finally show ?case
    using a by simp
qed

lemma buildTree_leaves:
  "buildTree ps r = Inr t \<Longrightarrow>
   mset (treeFiles t) = mset (map (\<lambda>p. TreeFile p (last (js_split CHR ''/'' p))) ps)"
proof -
  assume "buildTree ps r = Inr t"
  then obtain f where f: "insertAll ps (BuildingFolder (case rootName r of Some n \<Rightarrow> n | None \<Rightarrow> ''/'') r [] []) = Inr f"
    and t: "t = convertTree f"
    by (auto simp: buildTree_def split: sum.splits)
  have "mset (trieFiles f) = image_mset (\<lambda>p. \<lparr>file_name = last (js_split CHR ''/'' p), file_path = p\<rparr>) (mset ps)"
    using insertAll_files [OF f] by simp
  then show ?thesis
    unfolding t convertTree_files by (simp add: multiset.map_comp comp_def)
qed

subsection \<open>Keys and names\<close>

lemma insertPath_name:
  "insertPath fp seen parts f = Inr f' \<Longrightarrow> folder_name f' = folder_name f \<and> folder_path f' = folder_path f"
proof (cases parts)
  case Nil
  assume "insertPath fp seen parts f = Inr f'"
  with Nil show ?thesis by simp
next
  case (Cons part rest)
  assume "insertPath fp seen parts f = Inr f'"
  with Cons show ?thesis
    by (cases f; cases rest) (auto split: option.splits sum.splits if_splits simp: Let_def)
qed

lemma insertPath_wf:
  "insertPath fp seen parts f = Inr f' \<Longrightarrow> wf_trie f \<Longrightarrow> wf_trie f'"
proof (induction parts arbitrary: seen f f')
  case Nil
  then show ?case by simp
next
  case (Cons part rest)
  obtain n p fs ds where f: "f = BuildingFolder n p fs ds" by (cases f)
  show ?case
  proof (cases rest)
    case Nil
    with Cons.prems f show ?thesis by auto
  next
    case (Cons r rs)
    note rest = this
    have step: "wf_trie (BuildingFolder n p fs (AList.update part sub' ds))"
      if "wf_trie sub'" "folder_name sub' = part" for sub'
    proof -
      have "distinct (map fst (AList.update part sub' ds))"
        using Cons.prems(2) f by (simp add: distinct_update)
      moreover have "\<forall>kv \<in> set (AList.update part sub' ds). folder_name (snd kv) = fst kv \<and> wf_trie (snd kv)"
        using update_set_subset [of part sub' ds] that Cons.prems(2) f by auto
      ultimately show ?thesis by simp
    qed
    show ?thesis
    proof (cases "map_of ds part")
      case None
      with Cons.prems(1) f rest obtain sub' where
        ins: "insertPath fp (seen @ [part]) rest (BuildingFolder part (js_join CHR ''/'' (seen @ [part])) [] []) = Inr sub'"
        and f': "f' = BuildingFolder n p fs (AList.update part sub' ds)"
        by (auto split: if_splits sum.splits simp: Let_def)
      have "wf_trie sub'" using Cons.IH [OF ins] by simp
      moreover have "folder_name sub' = part" using insertPath_name [OF ins] by simp
      ultimately show ?thesis unfolding f' by (rule step)
    next
      case (Some sub)
      with Cons.prems(1) f rest obtain sub' where
        ins: "insertPath fp (seen @ [part]) rest sub = Inr sub'"
        and f': "f' = BuildingFolder n p fs (AList.update part sub' ds)"
        by (auto split: sum.splits)
      have mem: "(part, sub) \<in> set ds" using Some by (rule map_of_SomeD)
      then have "wf_trie sub" "folder_name sub = part" using Cons.prems(2) f by auto
      then have "wf_trie sub'" "folder_name sub' = part"
        using Cons.IH [OF ins] insertPath_name [OF ins] by simp_all
      then show ?thesis unfolding f' by (rule step)
    qed
  qed
qed

lemma insertAll_wf: "insertAll ps f = Inr f' \<Longrightarrow> wf_trie f \<Longrightarrow> wf_trie f'"
proof (induction ps arbitrary: f)
  case Nil
  then show ?case by simp
next
  case (Cons q ps)
  then obtain g where g: "insertPath q [] (js_split CHR ''/'' q) f = Inr g" and r: "insertAll ps g = Inr f'"
    by (auto split: sum.splits)
  show ?case using Cons.IH [OF r] insertPath_wf [OF g Cons.prems(2)] by simp
qed

lemma wf_root [simp]: "wf_trie (BuildingFolder n p [] [])"
  by simp

lemma isFolder_convertTree [simp]: "isFolder (convertTree f)"
  by (cases f) simp

lemma filter_isFolder_children:
  "filter isFolder (map convertTree xs @ map (\<lambda>b. TreeFile (file_path b) (file_name b)) fs)
     = map convertTree xs"
  "filter (\<lambda>c. \<not> isFolder c) (map convertTree xs @ map (\<lambda>b. TreeFile (file_path b) (file_name b)) fs)
     = map (\<lambda>b. TreeFile (file_path b) (file_name b)) fs"
  by (induction xs) (simp_all add: filter_map comp_def)

lemma wf_siblingFolders: "wf_trie f \<Longrightarrow> siblingFolders (convertTree f)"
proof (induction f rule: convertTree.induct)
  case (1 n p fs ds)
  have wf: "distinct (map fst ds)" "\<forall>kv \<in> set ds. folder_name (snd kv) = fst kv \<and> wf_trie (snd kv)"
    using "1.prems" by simp_all
  have "mset (map folder_name (object_values ds)) = mset (map folder_name (map snd ds))"
    by (simp only: mset_map mset_object_values)
  also have "map folder_name (map snd ds) = map fst ds"
    using wf(2) by simp
  finally have "distinct (map folder_name (object_values ds))"
    using wf(1) mset_eq_imp_distinct_iff by blast
  then have names: "distinct (map tree_name (map convertTree (object_values ds)))"
    by (simp add: comp_def)
  have subs: "\<forall>x \<in> set (object_values ds). siblingFolders (convertTree x)"
    using "1.IH" wf(2) by (auto simp: set_object_values)
  have files: "list_all siblingFolders (map (\<lambda>b. TreeFile (file_path b) (file_name b)) fs)"
    by (simp add: list_all_iff)
  show ?case
    using names subs files
    by (auto simp: filter_isFolder_children list_all_iff simp del: map_map)
qed

subsection \<open>Paths and locations\<close>

lemma insertPath_located:
  "insertPath fp seen parts f = Inr f' \<Longrightarrow> js_split CHR ''/'' fp = seen @ parts \<Longrightarrow>
   located seen f \<Longrightarrow> located seen f'"
proof (induction parts arbitrary: seen f f')
  case Nil
  then show ?case by simp
next
  case (Cons part rest)
  obtain n p fs ds where f: "f = BuildingFolder n p fs ds" by (cases f)
  show ?case
  proof (cases rest)
    case Nil
    with Cons.prems f show ?thesis by auto
  next
    case (Cons r rs)
    note rest = this
    have sp: "js_split CHR ''/'' fp = (seen @ [part]) @ rest" using Cons.prems(2) by simp
    have step: "located seen (BuildingFolder n p fs (AList.update part sub' ds))"
      if "located (seen @ [part]) sub'" for sub'
      using update_set_subset [of part sub' ds] that Cons.prems(3) f by auto
    show ?thesis
    proof (cases "map_of ds part")
      case None
      with Cons.prems(1) f rest obtain sub' where
        ins: "insertPath fp (seen @ [part]) rest (BuildingFolder part (js_join CHR ''/'' (seen @ [part])) [] []) = Inr sub'"
        and f': "f' = BuildingFolder n p fs (AList.update part sub' ds)"
        by (auto split: if_splits sum.splits simp: Let_def)
      have "located (seen @ [part]) sub'" using Cons.IH [OF ins sp] by simp
      then show ?thesis unfolding f' by (rule step)
    next
      case (Some sub)
      with Cons.prems(1) f rest obtain sub' where
        ins: "insertPath fp (seen @ [part]) rest sub = Inr sub'"
        and f': "f' = BuildingFolder n p fs (AList.update part sub' ds)"
        by (auto split: sum.splits)
      have mem: "(part, sub) \<in> set ds" using Some by (rule map_of_SomeD)
      then have "located (seen @ [part]) sub" using Cons.prems(3) f by auto
      then have "located (seen @ [part]) sub'" using Cons.IH [OF ins sp] by simp
      then show ?thesis unfolding f' by (rule step)
    qed
  qed
qed

lemma insertAll_located: "insertAll ps f = Inr f' \<Longrightarrow> located [] f \<Longrightarrow> located [] f'"
proof (induction ps arbitrary: f)
  case Nil
  then show ?case by simp
next
  case (Cons q ps)
  then obtain g where g: "insertPath q [] (js_split CHR ''/'' q) f = Inr g" and r: "insertAll ps g = Inr f'"
    by (auto split: sum.splits)
  show ?case using Cons.IH [OF r] insertPath_located [OF g _ Cons.prems(2)] by simp
qed

lemma located_root [simp]: "located [] (BuildingFolder n p [] [])"
  by simp

lemma located_siblingFiles:
  "located loc f \<Longrightarrow> distinct (map file_path (trieFiles f)) \<Longrightarrow> siblingFiles (convertTree f)"
proof (induction f arbitrary: loc rule: convertTree.induct)
  case (1 n p fs ds)
  have loc: "\<forall>b \<in> set fs. js_split CHR ''/'' (file_path b) = loc @ [file_name b]"
    "\<forall>kv \<in> set ds. located (loc @ [fst kv]) (snd kv)"
    using "1.prems"(1) by simp_all
  have dist: "distinct (map file_path fs)"
    "distinct (map file_path (concat (map (\<lambda>kv. trieFiles (snd kv)) ds)))"
    using "1.prems"(2) by simp_all
  have "\<forall>b \<in> set fs. file_path b = js_join CHR ''/'' (loc @ [file_name b])"
    using loc(1) js_join_split by metis
  then have "map file_path fs = map (\<lambda>n. js_join CHR ''/'' (loc @ [n])) (map file_name fs)"
    by simp
  then have "distinct (map (\<lambda>n. js_join CHR ''/'' (loc @ [n])) (map file_name fs))"
    using dist(1) by (simp only:)
  then have names: "distinct (map file_name fs)"
    by (simp only: map_map comp_def) (rule distinct_map_outer)
  have subs: "\<forall>x \<in> set (object_values ds). siblingFiles (convertTree x)"
  proof
    fix x assume x: "x \<in> set (object_values ds)"
    then obtain k where k: "(k, x) \<in> set ds" by (auto simp: set_object_values)
    then have "located (loc @ [k]) x" using loc(2) by auto
    moreover have "distinct (map file_path (trieFiles x))"
      using distinct_map_concat_part [OF dist(2), of "trieFiles x"] k by force
    ultimately show "siblingFiles (convertTree x)" using "1.IH" [OF x] by blast
  qed
  have files: "list_all siblingFiles (map (\<lambda>b. TreeFile (file_path b) (file_name b)) fs)"
    by (simp add: list_all_iff)
  have "map tree_name (map (\<lambda>b. TreeFile (file_path b) (file_name b)) fs) = map file_name fs"
    by simp
  then show ?case
    using names subs files
    by (auto simp: filter_isFolder_children list_all_iff simp del: map_map)
qed

lemma filesAt_empty [simp]: "filesAt loc (BuildingFolder n p [] []) = []"
  by (cases loc) simp_all

lemma insertPath_filesAt:
  "insertPath fp seen parts f = Inr f' \<Longrightarrow> parts \<noteq> [] \<Longrightarrow>
   filesAt loc f' = filesAt loc f
     @ (if loc = butlast parts then [\<lparr>file_name = last parts, file_path = fp\<rparr>] else [])"
proof (induction parts arbitrary: seen f f' loc)
  case Nil
  then show ?case by simp
next
  case (Cons part rest)
  obtain n p fs ds where f: "f = BuildingFolder n p fs ds" by (cases f)
  show ?case
  proof (cases rest)
    case Nil
    with Cons.prems f show ?thesis by (cases loc) auto
  next
    case (Cons r rs)
    note rest = this
    have step: "filesAt loc (BuildingFolder n p fs (AList.update part sub' ds)) =
        filesAt loc f @ (if loc = butlast (part # rest) then [\<lparr>file_name = last (part # rest), file_path = fp\<rparr>] else [])"
      if "\<And>ks. filesAt ks sub' = (case map_of ds part of None \<Rightarrow> [] | Some sub \<Rightarrow> filesAt ks sub)
            @ (if ks = butlast rest then [\<lparr>file_name = last rest, file_path = fp\<rparr>] else [])" for sub'
    proof (cases loc)
      case Nil
      then show ?thesis using f rest by simp
    next
      case (Cons k ks)
      then show ?thesis using f rest that [of ks] by (auto simp: update_conv' split: option.splits)
    qed
    show ?thesis
    proof (cases "map_of ds part")
      case None
      with Cons.prems(1) f rest obtain sub' where
        ins: "insertPath fp (seen @ [part]) rest (BuildingFolder part (js_join CHR ''/'' (seen @ [part])) [] []) = Inr sub'"
        and f': "f' = BuildingFolder n p fs (AList.update part sub' ds)"
        by (auto split: if_splits sum.splits simp: Let_def)
      show ?thesis unfolding f'
        by (rule step) (use Cons.IH [OF ins] rest None in simp)
    next
      case (Some sub)
      with Cons.prems(1) f rest obtain sub' where
        ins: "insertPath fp (seen @ [part]) rest sub = Inr sub'"
        and f': "f' = BuildingFolder n p fs (AList.update part sub' ds)"
        by (auto split: sum.splits)
      show ?thesis unfolding f'
        by (rule step) (use Cons.IH [OF ins] rest Some in simp)
    qed
  qed
qed

lemma insertAll_filesAt:
  "insertAll ps f = Inr f' \<Longrightarrow>
   filesAt loc f' = filesAt loc f
     @ map (\<lambda>p. \<lparr>file_name = last (js_split CHR ''/'' p), file_path = p\<rparr>)
         (filter (\<lambda>p. butlast (js_split CHR ''/'' p) = loc) ps)"
proof (induction ps arbitrary: f)
  case Nil
  then show ?case by simp
next
  case (Cons q ps)
  then obtain g where g: "insertPath q [] (js_split CHR ''/'' q) f = Inr g" and r: "insertAll ps g = Inr f'"
    by (auto split: sum.splits)
  show ?case
    using insertPath_filesAt [OF g, of loc] Cons.IH [OF r] by auto
qed

lemma convertTree_not_file [simp]: "convertTree x \<noteq> TreeFile i n"
  by (cases x) simp

lemma count_list_map_convertTree [simp]: "count_list (map convertTree xs) (TreeFile i n) = 0"
  by (induction xs) simp_all

lemma find_folder_child:
  assumes "distinct (map fst ds)" "\<forall>kv \<in> set ds. folder_name (snd kv) = fst kv"
  shows "find (\<lambda>c. isFolder c \<and> tree_name c = k)
           (map convertTree (object_values ds) @ map (\<lambda>b. TreeFile (file_path b) (file_name b)) fs)
         = map_option convertTree (map_of ds k)"
proof (cases "map_of ds k")
  case None
  then have "k \<notin> fst ` set ds" by (simp add: map_of_eq_None_iff)
  then have "\<forall>kv \<in> set ds. folder_name (snd kv) \<noteq> k"
    using assms(2) by force
  then have "\<forall>c \<in> set (map convertTree (object_values ds) @ map (\<lambda>b. TreeFile (file_path b) (file_name b)) fs).
               \<not> (isFolder c \<and> tree_name c = k)"
    by (auto simp: set_object_values)
  then show ?thesis using None by (simp add: find_None_iff del: set_append)
next
  case (Some sub)
  define L where "L = map convertTree (object_values ds) @ map (\<lambda>b. TreeFile (file_path b) (file_name b)) fs"
  from Some have mem: "(k, sub) \<in> set ds" by (rule map_of_SomeD)
  then have "sub \<in> set (object_values ds)"
    unfolding set_object_values by (rule image_eqI [where x = "(k, sub)", rotated]) simp
  then have "convertTree sub \<in> set L"
    by (simp add: L_def)
  moreover have "isFolder (convertTree sub) \<and> tree_name (convertTree sub) = k"
    using assms(2) mem by auto
  ultimately have "\<exists>c \<in> set L. isFolder c \<and> tree_name c = k"
    by blast
  then have "find (\<lambda>c. isFolder c \<and> tree_name c = k) L \<noteq> None"
    by (simp only: find_None_iff) blast
  then obtain c where c: "find (\<lambda>c. isFolder c \<and> tree_name c = k) L = Some c"
    by blast
  have pc: "isFolder c \<and> tree_name c = k" and "c \<in> set L"
    using find_Some_holds [OF c] by simp_all
  then obtain x where x: "x \<in> set (object_values ds)" "c = convertTree x"
    by (auto simp: L_def)
  then obtain k' where k': "(k', x) \<in> set ds"
    by (auto simp: set_object_values)
  have "folder_name x = k" using pc x(2) by simp
  with k' assms(2) have "(k, x) \<in> set ds" by auto
  with assms(1) have "x = sub" using mem by (rule eq_key_imp_eq_value)
  with c x(2) Some show ?thesis by (simp add: L_def)
qed

lemma childrenAt_files:
  "wf_trie f \<Longrightarrow>
   count_list (childrenAt loc (convertTree f)) (TreeFile i n)
     = count_list (map (\<lambda>b. TreeFile (file_path b) (file_name b)) (filesAt loc f)) (TreeFile i n)"
proof (induction loc arbitrary: f)
  case Nil
  then show ?case by (cases f) simp
next
  case (Cons k ks)
  obtain n' p fs ds where f: "f = BuildingFolder n' p fs ds" by (cases f)
  have wf: "distinct (map fst ds)" "\<forall>kv \<in> set ds. folder_name (snd kv) = fst kv"
    "\<forall>kv \<in> set ds. wf_trie (snd kv)"
    using Cons.prems f by simp_all
  show ?case
  proof (cases "map_of ds k")
    case None
    then show ?thesis using f find_folder_child [OF wf(1,2), of k fs] by simp
  next
    case (Some sub)
    then have "wf_trie sub" using wf(3) map_of_SomeD by fastforce
    from Cons.IH [OF this] show ?thesis
      using f Some find_folder_child [OF wf(1,2), of k fs] by simp
  qed
qed

subsection \<open>The files of the root and the empty path\<close>

text \<open>Inserting a path never reads the files of the folder it starts from.\<close>

lemma insertPath_files_apart:
  "insertPath filePath seen parts (BuildingFolder n p fs ds) =
     (case insertPath filePath seen parts (BuildingFolder n p [] ds) of
        Inl e \<Rightarrow> Inl e
      | Inr f \<Rightarrow> Inr (BuildingFolder n p (fs @ folder_files f) (folders f)))"
proof (cases parts)
  case Nil
  then show ?thesis by simp
next
  case (Cons part rest)
  then show ?thesis
    by (cases rest) (auto split: option.splits sum.splits simp: Let_def)
qed

lemma insertAll_files_apart:
  "insertAll ps (BuildingFolder n p fs ds) =
     (case insertAll ps (BuildingFolder n p [] ds) of
        Inl e \<Rightarrow> Inl e
      | Inr f \<Rightarrow> Inr (BuildingFolder n p (fs @ folder_files f) (folders f)))"
proof (induction ps arbitrary: fs ds)
  case Nil
  show ?case by simp
next
  case (Cons q ps)
  show ?case
  proof (cases "insertPath q [] (js_split CHR ''/'' q) (BuildingFolder n p [] ds)")
    case (Inl e)
    then show ?thesis
      using insertPath_files_apart [of q "[]" "js_split CHR ''/'' q" n p fs ds] by simp
  next
    case (Inr f)
    obtain n1 p1 fs1 ds1 where f: "f = BuildingFolder n1 p1 fs1 ds1" by (cases f)
    have n1: "n1 = n" "p1 = p"
      using insertPath_name [OF Inr] by (simp_all add: f)
    show ?thesis
      using Inr insertPath_files_apart [of q "[]" "js_split CHR ''/'' q" n p fs ds]
        Cons.IH [of fs1 ds1] Cons.IH [of "fs @ fs1" ds1]
      by (auto simp: f n1 split: sum.splits)
  qed
qed

lemma insertAll_fails_apart:
  "(insertAll ps (BuildingFolder n p fs ds) = Inl e)
     = (insertAll ps (BuildingFolder n p fs' ds) = Inl e)"
  using insertAll_files_apart [of ps n p fs ds] insertAll_files_apart [of ps n p fs' ds]
  by (auto split: sum.splits)

lemma buildTree_fails_apart:
  "(buildTree (xs @ [] # ys) r = Inl e) = (buildTree (xs @ ys) r = Inl e)"
proof -
  define f0 where "f0 = BuildingFolder (case rootName r of Some n \<Rightarrow> n | None \<Rightarrow> ''/'') r [] []"
  have b: "(buildTree qs r = Inl e) = (insertAll qs f0 = Inl e)" for qs
    by (auto simp: buildTree_def f0_def split: sum.splits)
  show ?thesis
  proof (cases "insertAll xs f0")
    case (Inl e')
    then show ?thesis by (simp add: b insertAll_append)
  next
    case (Inr g)
    obtain n p fs ds where g: "g = BuildingFolder n p fs ds" by (cases g)
    have "insertPath [] [] (js_split CHR ''/'' []) g
            = Inr (BuildingFolder n p (fs @ [\<lparr>file_name = [], file_path = []\<rparr>]) ds)"
      by (simp add: g)
    then show ?thesis
      using Inr insertAll_fails_apart [of ys n p "fs @ [\<lparr>file_name = [], file_path = []\<rparr>]" ds e fs]
      by (simp add: b insertAll_append g)
  qed
qed

lemma buildTree_childrenAt_count:
  assumes "buildTree ps r = Inr t"
  shows "count_list (childrenAt (butlast (js_split CHR ''/'' p)) t)
                   (TreeFile p (last (js_split CHR ''/'' p)))
          = count_list ps p"
proof -
  from buildTree_Inr [OF assms] obtain f where
    f: "insertAll ps (BuildingFolder (case rootName r of Some n \<Rightarrow> n | None \<Rightarrow> ''/'') r [] []) = Inr f"
    and t: "t = convertTree f"
    by blast
  have wf: "wf_trie f" using insertAll_wf [OF f] by simp
  have "filesAt (butlast (js_split CHR ''/'' p)) f =
          map (\<lambda>q. \<lparr>file_name = last (js_split CHR ''/'' q), file_path = q\<rparr>)
            (filter (\<lambda>q. butlast (js_split CHR ''/'' q) = butlast (js_split CHR ''/'' p)) ps)"
    using insertAll_filesAt [OF f, of "butlast (js_split CHR ''/'' p)"] by simp
  then have "map (\<lambda>b. TreeFile (file_path b) (file_name b)) (filesAt (butlast (js_split CHR ''/'' p)) f)
        = map (\<lambda>q. TreeFile q (last (js_split CHR ''/'' q)))
            (filter (\<lambda>q. butlast (js_split CHR ''/'' q) = butlast (js_split CHR ''/'' p)) ps)"
    by (simp add: comp_def)
  moreover have "count_list (map (\<lambda>q. TreeFile q (last (js_split CHR ''/'' q))) qs)
                    (TreeFile p (last (js_split CHR ''/'' p))) = count_list qs p" for qs
    by (induction qs) auto
  ultimately show ?thesis
    unfolding t childrenAt_files [OF wf] by (simp add: count_list_filter)
qed

lemma buildTree_root_count:
  assumes "buildTree ps r = Inr t"
  shows "count_list (children t) (TreeFile [] []) = count_list ps []"
proof -
  from buildTree_Inr [OF assms] obtain f where t: "t = convertTree f" by blast
  have "childrenAt [] t = children t"
    unfolding t by (cases f) simp
  with buildTree_childrenAt_count [OF assms, of "[]"] show ?thesis by simp
qed

section \<open>The walker and its two inputs\<close>

subsection \<open>The folders found\<close>

lemma set_fold_set_add: "set (fold set_add xs dirs) = set dirs \<union> set xs"
  by (induction xs arbitrary: dirs) (auto simp: set_add_def)

lemma distinct_fold_set_add: "distinct dirs \<Longrightarrow> distinct (fold set_add xs dirs)"
  by (induction xs arbitrary: dirs) (auto simp: set_add_def)

lemma addFolders_eq: "addFolders file dirs = fold set_add (folderPrefixes file) dirs"
  by (simp add: addFolders_def folderPrefixes_def dirOnly_def Let_def fold_map comp_def)

lemma set_getAllFolders: "set (getAllFolders ps) = (\<Union>p \<in> set ps. set (folderPrefixes p))"
proof -
  have "set (fold addFolders ps dirs) = set dirs \<union> (\<Union>p \<in> set ps. set (folderPrefixes p))" for dirs
    by (induction ps arbitrary: dirs) (auto simp: addFolders_eq set_fold_set_add)
  then show ?thesis by (simp add: getAllFolders_def)
qed

lemma distinct_getAllFolders: "distinct (getAllFolders ps)"
proof -
  have "distinct dirs \<Longrightarrow> distinct (fold addFolders ps dirs)" for dirs
    by (induction ps arbitrary: dirs) (auto simp: addFolders_eq distinct_fold_set_add)
  then show ?thesis by (simp add: getAllFolders_def)
qed

lemma dirOnly_file: "isFile p \<Longrightarrow> dirOnly p = butlast (js_split CHR ''/'' p)"
  by (simp add: dirOnly_def isFile_def Let_def)

lemma prefix_in_getAllFolders:
  assumes "p \<in> set ps" "isFile p" "1 \<le> j" "j \<le> length (butlast (js_split CHR ''/'' p))"
  shows "js_join CHR ''/'' (take j (butlast (js_split CHR ''/'' p))) \<in> set (getAllFolders ps)"
proof -
  have "j - 1 < length (dirOnly p)" using assms by (simp add: dirOnly_file)
  then have "js_join CHR ''/'' (take ((j - 1) + 1) (dirOnly p)) \<in> set (folderPrefixes p)"
    by (auto simp: folderPrefixes_def intro!: image_eqI [where x = "j - 1"])
  then show ?thesis
    using assms by (auto simp: set_getAllFolders dirOnly_file)
qed

lemma map_of_foldersByLength:
  "map_of (foldersByLength xs) d =
     (if filter (\<lambda>x. charCount x CHR ''/'' = d) xs = [] then None
      else Some (filter (\<lambda>x. charCount x CHR ''/'' = d) xs))"
proof (induction xs arbitrary: d rule: rev_induct)
  case Nil
  show ?case by (simp add: foldersByLength_def)
next
  case (snoc x xs)
  have "foldersByLength (xs @ [x]) = groupByLength x (foldersByLength xs)"
    by (simp add: foldersByLength_def)
  then show ?case
    using snoc [of d] snoc [of "charCount x CHR ''/''"]
    by (auto simp: groupByLength_def Let_def update_conv' split: option.splits if_splits)
qed

subsection \<open>The files registered\<close>

lemma addFileNode_filesUnder:
  assumes "addFileNode p afn = Inr afn'"
  shows "filesUnder afn' key =
           filesUnder afn key
           @ (if isFile p \<and> fileKey p = key then [last (js_split CHR ''/'' p)] else [])"
    and "map_of afn ''/'' \<noteq> None \<Longrightarrow> map_of afn' ''/'' \<noteq> None"
proof -
  obtain segs where segs: "js_split CHR ''/'' p = segs" by simp
  have ne: "segs \<noteq> []" using segs by auto
  then have rv: "rev segs = last segs # rev (butlast segs)"
    by (metis append_butlast_last_id rev.simps(2) rev_rev_ident rev_append rev_singleton_conv append_Nil)
  have len: "length segs = 1 \<or> length segs > 1" using ne by (cases segs) auto
  have one: "length segs = 1 \<Longrightarrow> p = last segs"
    using segs js_join_split [of "CHR ''/''" p] by (cases segs) auto
  show "filesUnder afn' key =
           filesUnder afn key
           @ (if isFile p \<and> fileKey p = key then [last (js_split CHR ''/'' p)] else [])"
    using assms len one
    by (auto simp: addFileNode_def Let_def segs ne rv isFile_def fileKey_def filesUnder_def update_conv'
             split: if_splits option.splits sum.splits)
  show "map_of afn ''/'' \<noteq> None \<Longrightarrow> map_of afn' ''/'' \<noteq> None"
    using assms len
    by (auto simp: addFileNode_def Let_def segs ne rv update_conv'
             split: if_splits option.splits sum.splits)
qed

lemma addFileNodes_filesUnder:
  "addFileNodes ps afn = Inr afn' \<Longrightarrow>
   filesUnder afn' key =
     filesUnder afn key
     @ map (\<lambda>p. last (js_split CHR ''/'' p)) (filter (\<lambda>p. isFile p \<and> fileKey p = key) ps)"
proof (induction ps arbitrary: afn)
  case Nil
  then show ?case by simp
next
  case (Cons q ps)
  then obtain a where a: "addFileNode q afn = Inr a" and r: "addFileNodes ps a = Inr afn'"
    by (auto split: sum.splits)
  show ?case
    using addFileNode_filesUnder(1) [OF a, of key] Cons.IH [OF r] by auto
qed

lemma getAllFileNodes_filesUnder:
  "getAllFileNodes ps = Inr afn \<Longrightarrow>
   filesUnder afn key =
     map (\<lambda>p. last (js_split CHR ''/'' p)) (filter (\<lambda>p. isFile p \<and> fileKey p = key) ps)"
  using addFileNodes_filesUnder [of ps "[(''/'', [])]" afn key]
  by (simp add: getAllFileNodes_def filesUnder_def)

lemma containedFiles_filesUnder: "containedFiles afn dir = Inr fs \<Longrightarrow> fs = filesUnder afn dir"
  by (auto simp: containedFiles_def filesUnder_def split: option.splits if_splits)

lemma distinct_filesUnder:
  assumes afn: "getAllFileNodes ps = Inr afn" and "distinct ps" "dir \<noteq> ''/''"
  shows "distinct (filesUnder afn dir)"
proof -
  have "inj_on (\<lambda>p. last (js_split CHR ''/'' p)) {q. isFile q \<and> fileKey q = dir}"
  proof (rule inj_onI)
    fix x y
    assume x: "x \<in> {q. isFile q \<and> fileKey q = dir}" and y: "y \<in> {q. isFile q \<and> fileKey q = dir}"
      and eq: "last (js_split CHR ''/'' x) = last (js_split CHR ''/'' y)"
    have lx: "length (js_split CHR ''/'' x) \<noteq> 1" and ly: "length (js_split CHR ''/'' y) \<noteq> 1"
      using x y assms(3) by (auto simp: fileKey_def split: if_splits)
    then have "js_join CHR ''/'' (butlast (js_split CHR ''/'' x)) = js_join CHR ''/'' (butlast (js_split CHR ''/'' y))"
      using x y by (simp add: fileKey_def)
    with join_butlast_last [OF lx] join_butlast_last [OF ly] eq show "x = y" by metis
  qed
  then have "inj_on (\<lambda>p. last (js_split CHR ''/'' p)) (set (filter (\<lambda>p. isFile p \<and> fileKey p = dir) ps))"
    by (rule inj_on_subset) auto
  then show ?thesis
    using assms(2) by (simp add: getAllFileNodes_filesUnder [OF afn] distinct_map)
qed

subsection \<open>One round of the walk\<close>

lemma walk_Cons:
  "walk fbl afn (Some (dir # dirs)) depth = Inr nodes \<Longrightarrow>
   \<exists>nested fs rest. nestedDirs fbl afn dir depth = Inr nested
      \<and> containedFiles afn dir = Inr fs
      \<and> walk fbl afn (Some dirs) depth = Inr rest
      \<and> nodes = folderNodeOf dir nested fs # rest"
  by (auto simp: nestedDirs_def folderNodeOf_def Let_def split: sum.splits)

lemma walk_member:
  "walk fbl afn (Some dirs) depth = Inr nodes \<Longrightarrow> dir \<in> set dirs \<Longrightarrow>
   \<exists>nested fs. nestedDirs fbl afn dir depth = Inr nested
      \<and> containedFiles afn dir = Inr fs
      \<and> folderNodeOf dir nested fs \<in> set nodes"
proof (induction dirs arbitrary: nodes)
  case Nil
  then show ?case by simp
next
  case (Cons d dirs)
  from walk_Cons [OF Cons.prems(1)] obtain nested fs rest where
    w: "nestedDirs fbl afn d depth = Inr nested" "containedFiles afn d = Inr fs"
       "walk fbl afn (Some dirs) depth = Inr rest" "nodes = folderNodeOf d nested fs # rest"
    by blast
  show ?case
  proof (cases "dir = d")
    case True
    with w show ?thesis by auto
  next
    case False
    with Cons.prems(2) have "dir \<in> set dirs" by simp
    from Cons.IH [OF w(3) this] w(4) show ?thesis by auto
  qed
qed

lemma walk_relative:
  "walk fbl afn (Some dirs) depth = Inr nodes \<Longrightarrow>
   map relative nodes = dirs \<and> map name nodes = map (\<lambda>d. hd (rev (js_split CHR ''/'' d))) dirs"
proof (induction dirs arbitrary: nodes)
  case Nil
  then show ?case by simp
next
  case (Cons d dirs)
  from walk_Cons [OF Cons.prems(1)] obtain nested fs rest where
    w: "walk fbl afn (Some dirs) depth = Inr rest" "nodes = folderNodeOf d nested fs # rest"
    by blast
  from Cons.IH [OF w(1)] w(2) show ?case by (simp add: folderNodeOf_def)
qed

lemma enclosed_shift:
  "enclosed c node = map (\<lambda>cl. (c @ fst cl, snd cl)) (enclosed [] node)"
proof (induction node arbitrary: c)
  case (FileNode n r)
  show ?case by simp
next
  case (FolderNode n r fs)
  have "concat (map (enclosed (c @ [r])) fs)
        = concat (map (\<lambda>x. map (\<lambda>cl. ((c @ [r]) @ fst cl, snd cl)) (enclosed [] x)) fs)"
    using FolderNode [of _ "c @ [r]"] by (intro arg_cong [where f = concat] map_cong) auto
  moreover have "concat (map (enclosed ([] @ [r])) fs)
        = concat (map (\<lambda>x. map (\<lambda>cl. ([r] @ fst cl, snd cl)) (enclosed [] x)) fs)"
    using FolderNode [of _ "[r]"] by (intro arg_cong [where f = concat] map_cong) auto
  ultimately show ?case
    by (simp add: map_concat comp_def)
qed

lemma forestFiles_Cons: "forestFiles (node # rest) = enclosed [] node @ forestFiles rest"
  by (simp add: forestFiles_def)

lemma enclosed_folderNodeOf:
  "set (enclosed [] (folderNodeOf dir nested fs)) =
     (\<lambda>cl. (dir # fst cl, snd cl)) ` set (forestFiles nested)
     \<union> (\<lambda>file. ([dir], FileNode file (dir @ ''/'' @ file))) ` set fs"
proof -
  have "set (concat (map (enclosed [dir]) nested)) = (\<lambda>cl. (dir # fst cl, snd cl)) ` set (forestFiles nested)"
    using enclosed_shift [of "[dir]"] by (auto simp: forestFiles_def)
  then show ?thesis
    by (auto simp: folderNodeOf_def)
qed

lemma enclosed_subset_forestFiles:
  "node \<in> set nodes \<Longrightarrow> set (enclosed [] node) \<subseteq> set (forestFiles nodes)"
  by (auto simp: forestFiles_def)

lemma makeFileHierarchy_Inr:
  "makeFileHierarchy ps = Inr forest \<Longrightarrow>
   \<exists>afn. getAllFileNodes ps = Inr afn
     \<and> walk (foldersByLength (getAllFolders ps)) afn
          (map_of (foldersByLength (getAllFolders ps)) 0) 0 = Inr forest"
  by (auto simp: makeFileHierarchy_def Let_def split: sum.splits)

subsection \<open>Every file node of the forest\<close>

lemma walk_leafShape:
  "walk fbl afn dirsopt depth = Inr nodes \<Longrightarrow> cl \<in> set (forestFiles nodes) \<Longrightarrow>
   leafShape fbl afn (case dirsopt of None \<Rightarrow> [] | Some ds \<Rightarrow> ds) depth cl"
proof (induction fbl afn dirsopt depth arbitrary: nodes cl rule: walk.induct)
  case (1 fbl afn depth)
  then show ?case by (simp add: forestFiles_def)
next
  case (2 fbl afn depth)
  then show ?case by (simp add: forestFiles_def)
next
  case (3 fbl afn dir dirs depth)
  from walk_Cons [OF "3.prems"(1)] obtain nested fs rest where
    w: "nestedDirs fbl afn dir depth = Inr nested" "containedFiles afn dir = Inr fs"
       "walk fbl afn (Some dirs) depth = Inr rest" "nodes = folderNodeOf dir nested fs # rest"
    by blast
  have fs: "fs = filesUnder afn dir" using w(2) by (rule containedFiles_filesUnder)
  from "3.prems"(2) w(4) consider
      (nested) c l where "cl = (dir # c, l)" "(c, l) \<in> set (forestFiles nested)"
    | (direct) fl where "cl = ([dir], FileNode fl (dir @ ''/'' @ fl))" "fl \<in> set fs"
    | (rest) "cl \<in> set (forestFiles rest)"
    by (auto simp: forestFiles_Cons enclosed_folderNodeOf)
  then show ?case
  proof cases
    case nested
    show ?thesis
    proof (cases "map_of fbl (depth + 1)")
      case None
      with w(1) nested(2) show ?thesis by (simp add: nestedDirs_def forestFiles_def)
    next
      case (Some nxt)
      with w(1) have "walk fbl afn (Some (filter (\<lambda>x. startsWith x dir) nxt)) (depth + 1) = Inr nested"
        by (simp add: nestedDirs_def)
      from "3.IH"(1) [OF Some this nested(2)]
      have "leafShape fbl afn (filter (\<lambda>x. startsWith x dir) nxt) (depth + 1) (c, l)" by simp
      then obtain d fl where s: "l = FileNode fl (d @ ''/'' @ fl)" "fl \<in> set (filesUnder afn d)"
        "c \<noteq> []" "last c = d"
        "if length c = 1 then d \<in> set (filter (\<lambda>x. startsWith x dir) nxt)
         else \<exists>nxt'. map_of fbl (depth + 1 + length c - 1) = Some nxt' \<and> d \<in> set nxt'"
        unfolding leafShape_def fst_conv snd_conv by blast
      have "\<exists>nxt'. map_of fbl (depth + length (dir # c) - 1) = Some nxt' \<and> d \<in> set nxt'"
      proof (cases "length c = 1")
        case True
        with s(5) Some show ?thesis by auto
      next
        case False
        with s(5) show ?thesis by simp
      qed
      with s(1-4) nested(1) show ?thesis
        by (auto simp: leafShape_def)
    qed
  next
    case direct
    then show ?thesis by (auto simp: leafShape_def fs)
  next
    case rest
    have "leafShape fbl afn dirs depth cl"
      using "3.IH"(2) [OF _ w(2) refl refl w(3) rest] w(1) by (simp add: nestedDirs_def)
    then show ?thesis by (auto simp: leafShape_def split: if_splits)
  qed
qed

lemma forest_leaf:
  assumes "makeFileHierarchy ps = Inr forest" "cl \<in> set (forestFiles forest)"
  shows "\<exists>q. q \<in> set ps \<and> isFile q \<and> fst cl \<noteq> [] \<and> last (fst cl) = fileKey q
           \<and> fileKey q \<in> set (getAllFolders ps)
           \<and> charCount (fileKey q) CHR ''/'' + 1 = length (fst cl)
           \<and> snd cl = FileNode (last (js_split CHR ''/'' q))
                         (fileKey q @ ''/'' @ last (js_split CHR ''/'' q))"
proof -
  define fbl where "fbl = foldersByLength (getAllFolders ps)"
  from makeFileHierarchy_Inr [OF assms(1)] obtain afn where
    afn: "getAllFileNodes ps = Inr afn" and w: "walk fbl afn (map_of fbl 0) 0 = Inr forest"
    by (auto simp: fbl_def)
  from walk_leafShape [OF w assms(2)] obtain dir fl where
    s: "snd cl = FileNode fl (dir @ ''/'' @ fl)" "fl \<in> set (filesUnder afn dir)"
       "fst cl \<noteq> []" "last (fst cl) = dir"
       "if length (fst cl) = 1 then dir \<in> set (case map_of fbl 0 of None \<Rightarrow> [] | Some ds \<Rightarrow> ds)
        else \<exists>nxt. map_of fbl (0 + length (fst cl) - 1) = Some nxt \<and> dir \<in> set nxt"
    unfolding leafShape_def by blast
  have "\<exists>nxt. map_of fbl (length (fst cl) - 1) = Some nxt \<and> dir \<in> set nxt"
  proof (cases "length (fst cl) = 1")
    case True
    with s(5) show ?thesis by (cases "map_of fbl 0") auto
  next
    case False
    with s(5) show ?thesis by simp
  qed
  then have dir: "dir \<in> set (getAllFolders ps)" "charCount dir CHR ''/'' = length (fst cl) - 1"
    by (auto simp: fbl_def map_of_foldersByLength split: if_splits)
  from s(2) obtain q where q: "q \<in> set ps" "isFile q" "fileKey q = dir" "fl = last (js_split CHR ''/'' q)"
    by (auto simp: getAllFileNodes_filesUnder [OF afn])
  have "charCount dir CHR ''/'' + 1 = length (fst cl)"
    using dir(2) s(3) by (cases "fst cl") auto
  with q s dir show ?thesis by auto
qed

lemma forest_leaf_dir:
  assumes "makeFileHierarchy ps = Inr forest" "cl \<in> set (forestFiles forest)"
  shows "isFile (relative (snd cl))"
    and "1 < length (js_split CHR ''/'' (relative (snd cl)))"
    and "fst cl \<noteq> []"
    and "last (fst cl) = js_join CHR ''/'' (butlast (js_split CHR ''/'' (relative (snd cl))))"
proof -
  from forest_leaf [OF assms] obtain q where
    q: "isFile q" "fst cl \<noteq> []" "last (fst cl) = fileKey q"
       "snd cl = FileNode (last (js_split CHR ''/'' q))
                   (fileKey q @ ''/'' @ last (js_split CHR ''/'' q))"
    by blast
  define fl where "fl = last (js_split CHR ''/'' q)"
  have nosep: "CHR ''/'' \<notin> set fl"
    unfolding fl_def by (rule last_split_no_sep)
  have rel: "relative (snd cl) = fileKey q @ CHR ''/'' # fl"
    using q(4) by (simp add: fl_def)
  have sp: "js_split CHR ''/'' (relative (snd cl)) = js_split CHR ''/'' (fileKey q) @ [fl]"
    unfolding rel js_split_append using nosep by (simp add: js_split_single)
  show "isFile (relative (snd cl))"
    using q(1) by (simp add: isFile_def sp fl_def)
  have "js_split CHR ''/'' (fileKey q) \<noteq> []" by simp
  then show "1 < length (js_split CHR ''/'' (relative (snd cl)))"
    unfolding sp by (cases "js_split CHR ''/'' (fileKey q)") simp_all
  show "fst cl \<noteq> []" by (rule q(2))
  show "last (fst cl) = js_join CHR ''/'' (butlast (js_split CHR ''/'' (relative (snd cl))))"
    unfolding sp using q(3) by simp
qed

subsection \<open>The file node of an input path\<close>

lemma walk_presence:
  assumes afn: "getAllFileNodes ps = Inr afn"
    and p: "p \<in> set ps" "isFile p"
  defines "segs \<equiv> butlast (js_split CHR ''/'' p)"
  defines "fbl \<equiv> foldersByLength (getAllFolders ps)"
  shows "1 \<le> j \<Longrightarrow> j \<le> length segs \<Longrightarrow>
         js_join CHR ''/'' (take j segs) \<in> set dirs \<Longrightarrow>
         walk fbl afn (Some dirs) (j - 1) = Inr nodes \<Longrightarrow>
         (map (\<lambda>i. js_join CHR ''/'' (take i segs)) [j ..< Suc (length segs)],
          FileNode (last (js_split CHR ''/'' p)) p) \<in> set (forestFiles nodes)"
proof (induction "length segs - j" arbitrary: j dirs nodes)
  case 0
  then have jk: "j = length segs" by simp
  from walk_member [OF "0.prems"(4,3)] obtain nested fs where
    n: "containedFiles afn (js_join CHR ''/'' (take j segs)) = Inr fs"
       "folderNodeOf (js_join CHR ''/'' (take j segs)) nested fs \<in> set nodes"
    by blast
  have len: "length (js_split CHR ''/'' p) \<noteq> 1"
    using "0.prems"(1,2) by (auto simp: segs_def)
  then have key: "fileKey p = js_join CHR ''/'' segs"
    by (simp add: fileKey_def segs_def)
  have "last (js_split CHR ''/'' p) \<in> set fs"
    using containedFiles_filesUnder [OF n(1)] getAllFileNodes_filesUnder [OF afn] p key jk by auto
  then have "([js_join CHR ''/'' segs],
              FileNode (last (js_split CHR ''/'' p))
                 (js_join CHR ''/'' segs @ ''/'' @ last (js_split CHR ''/'' p)))
             \<in> set (enclosed [] (folderNodeOf (js_join CHR ''/'' segs) nested fs))"
    unfolding enclosed_folderNodeOf by blast
  moreover have "js_join CHR ''/'' segs @ ''/'' @ last (js_split CHR ''/'' p) = p"
    using join_butlast_last [OF len] by (simp add: segs_def)
  ultimately show ?case
    using enclosed_subset_forestFiles [OF n(2)] jk by auto
next
  case (Suc d)
  then have lt: "j < length segs" by simp
  have nosep: "\<forall>seg \<in> set segs. CHR ''/'' \<notin> set seg"
    unfolding segs_def by (meson in_set_butlastD js_split_no_sep)
  from walk_member [OF Suc.prems(4,3)] obtain nested fs where
    n: "nestedDirs fbl afn (js_join CHR ''/'' (take j segs)) (j - 1) = Inr nested"
       "folderNodeOf (js_join CHR ''/'' (take j segs)) nested fs \<in> set nodes"
    by blast
  have mem: "js_join CHR ''/'' (take (Suc j) segs) \<in> set (getAllFolders ps)"
    using prefix_in_getAllFolders [OF p, of "Suc j"] lt by (simp add: segs_def)
  have cnt: "charCount (js_join CHR ''/'' (take (Suc j) segs)) CHR ''/'' = j"
    using prefix_facts(1) [of "Suc j" segs] lt nosep by simp
  define nxt where "nxt = filter (\<lambda>x. charCount x CHR ''/'' = j) (getAllFolders ps)"
  have nxt: "map_of fbl j = Some nxt" "js_join CHR ''/'' (take (Suc j) segs) \<in> set nxt"
    using mem cnt by (auto simp: fbl_def nxt_def map_of_foldersByLength filter_empty_conv)
  have j1: "Suc (j - Suc 0) = j" using Suc.prems(1) by simp
  have w: "walk fbl afn (Some (filter (\<lambda>x. startsWith x (js_join CHR ''/'' (take j segs))) nxt)) j = Inr nested"
    using n(1) nxt(1) by (simp add: nestedDirs_def j1)
  have "js_join CHR ''/'' (take (Suc j) segs)
          \<in> set (filter (\<lambda>x. startsWith x (js_join CHR ''/'' (take j segs))) nxt)"
    using nxt(2) prefix_facts(2) [OF Suc.prems(1) _ nosep lt] lt by simp
  note inner = this
  have d: "d = length segs - Suc j" using Suc.hyps(2) by simp
  have w': "walk fbl afn (Some (filter (\<lambda>x. startsWith x (js_join CHR ''/'' (take j segs))) nxt)) (Suc j - 1) = Inr nested"
    using w by simp
  have "1 \<le> Suc j" "Suc j \<le> length segs" using lt by simp_all
  from Suc.hyps(1) [OF d this inner w']
  have "(map (\<lambda>i. js_join CHR ''/'' (take i segs)) [Suc j ..< Suc (length segs)],
          FileNode (last (js_split CHR ''/'' p)) p) \<in> set (forestFiles nested)" .
  then have "(\<lambda>cl. (js_join CHR ''/'' (take j segs) # fst cl, snd cl))
          (map (\<lambda>i. js_join CHR ''/'' (take i segs)) [Suc j ..< Suc (length segs)],
           FileNode (last (js_split CHR ''/'' p)) p)
        \<in> (\<lambda>cl. (js_join CHR ''/'' (take j segs) # fst cl, snd cl)) ` set (forestFiles nested)"
    by (rule imageI)
  then have "(js_join CHR ''/'' (take j segs) # map (\<lambda>i. js_join CHR ''/'' (take i segs)) [Suc j ..< Suc (length segs)],
          FileNode (last (js_split CHR ''/'' p)) p)
        \<in> set (enclosed [] (folderNodeOf (js_join CHR ''/'' (take j segs)) nested fs))"
    unfolding enclosed_folderNodeOf by simp
  moreover have "[j ..< Suc (length segs)] = j # [Suc j ..< Suc (length segs)]"
    using lt by (simp add: upt_conv_Cons)
  ultimately show ?case
    using enclosed_subset_forestFiles [OF n(2)] by (simp only: list.map) blast
qed

lemma forest_presence:
  assumes "makeFileHierarchy ps = Inr forest" "p \<in> set ps" "isFile p"
    "length (js_split CHR ''/'' p) > 1"
  shows "(map (\<lambda>i. js_join CHR ''/'' (take i (butlast (js_split CHR ''/'' p))))
              [1 ..< length (js_split CHR ''/'' p)],
          FileNode (last (js_split CHR ''/'' p)) p) \<in> set (forestFiles forest)"
proof -
  define segs where "segs = butlast (js_split CHR ''/'' p)"
  define fbl where "fbl = foldersByLength (getAllFolders ps)"
  from makeFileHierarchy_Inr [OF assms(1)] obtain afn where
    afn: "getAllFileNodes ps = Inr afn" and w: "walk fbl afn (map_of fbl 0) 0 = Inr forest"
    by (auto simp: fbl_def)
  have k: "1 \<le> length segs" "Suc (length segs) = length (js_split CHR ''/'' p)"
    using assms(4) by (simp_all add: segs_def)
  have nosep: "\<forall>seg \<in> set segs. CHR ''/'' \<notin> set seg"
    unfolding segs_def by (meson in_set_butlastD js_split_no_sep)
  have mem: "js_join CHR ''/'' (take 1 segs) \<in> set (getAllFolders ps)"
    using prefix_in_getAllFolders [OF assms(2,3), of 1] k(1) by (simp add: segs_def)
  have cnt: "charCount (js_join CHR ''/'' (take 1 segs)) CHR ''/'' = 0"
    using prefix_facts(1) [of 1 segs] k(1) nosep by simp
  define dirs where "dirs = filter (\<lambda>x. charCount x CHR ''/'' = 0) (getAllFolders ps)"
  have dirs: "map_of fbl 0 = Some dirs" "js_join CHR ''/'' (take 1 segs) \<in> set dirs"
    using mem cnt by (auto simp: fbl_def dirs_def map_of_foldersByLength filter_empty_conv)
  have "walk fbl afn (Some dirs) (1 - 1) = Inr forest"
    using w dirs(1) by simp
  from walk_presence [OF afn assms(2,3), of 1 dirs forest, folded segs_def fbl_def, OF _ k(1) dirs(2) this]
  show ?thesis
    by (simp add: k(2) segs_def)
qed

subsection \<open>The folder node of an input path\<close>

lemma folderNodeOf_in_forestFolders:
  "folderNodeOf dir nested fs \<in> set nodes \<Longrightarrow>
   folderNodeOf dir nested fs \<in> set (forestFolders nodes)
   \<and> set (forestFolders nested) \<subseteq> set (forestFolders nodes)"
proof -
  assume mem: "folderNodeOf dir nested fs \<in> set nodes"
  have "folderNodeOf dir nested fs \<in> set (folderNodes (folderNodeOf dir nested fs))"
    by (simp add: folderNodeOf_def)
  moreover have "set (forestFolders nested) \<subseteq> set (folderNodes (folderNodeOf dir nested fs))"
    by (auto simp: folderNodeOf_def forestFolders_def)
  ultimately show ?thesis
    using mem by (auto simp: forestFolders_def)
qed

lemma walk_folder_presence:
  assumes afn: "getAllFileNodes ps = Inr afn"
    and p: "p \<in> set ps" "isFile p"
  defines "segs \<equiv> butlast (js_split CHR ''/'' p)"
  defines "fbl \<equiv> foldersByLength (getAllFolders ps)"
  shows "1 \<le> j \<Longrightarrow> j \<le> length segs \<Longrightarrow>
         js_join CHR ''/'' (take j segs) \<in> set dirs \<Longrightarrow>
         walk fbl afn (Some dirs) (j - 1) = Inr nodes \<Longrightarrow>
         \<exists>nested. folderNodeOf (js_join CHR ''/'' segs) nested (filesUnder afn (js_join CHR ''/'' segs))
                     \<in> set (forestFolders nodes)"
proof (induction "length segs - j" arbitrary: j dirs nodes)
  case 0
  then have jk: "j = length segs" by simp
  from walk_member [OF "0.prems"(4,3)] obtain nested fs where
    n: "containedFiles afn (js_join CHR ''/'' (take j segs)) = Inr fs"
       "folderNodeOf (js_join CHR ''/'' (take j segs)) nested fs \<in> set nodes"
    by blast
  have "fs = filesUnder afn (js_join CHR ''/'' segs)"
    using containedFiles_filesUnder [OF n(1)] jk by simp
  with n(2) jk folderNodeOf_in_forestFolders [of "js_join CHR ''/'' segs" nested fs nodes]
  show ?case by auto
next
  case (Suc d)
  then have lt: "j < length segs" by simp
  have nosep: "\<forall>seg \<in> set segs. CHR ''/'' \<notin> set seg"
    unfolding segs_def by (meson in_set_butlastD js_split_no_sep)
  from walk_member [OF Suc.prems(4,3)] obtain nested fs where
    n: "nestedDirs fbl afn (js_join CHR ''/'' (take j segs)) (j - 1) = Inr nested"
       "folderNodeOf (js_join CHR ''/'' (take j segs)) nested fs \<in> set nodes"
    by blast
  have mem: "js_join CHR ''/'' (take (Suc j) segs) \<in> set (getAllFolders ps)"
    using prefix_in_getAllFolders [OF p, of "Suc j"] lt by (simp add: segs_def)
  have cnt: "charCount (js_join CHR ''/'' (take (Suc j) segs)) CHR ''/'' = j"
    using prefix_facts(1) [of "Suc j" segs] lt nosep by simp
  define nxt where "nxt = filter (\<lambda>x. charCount x CHR ''/'' = j) (getAllFolders ps)"
  have nxt: "map_of fbl j = Some nxt" "js_join CHR ''/'' (take (Suc j) segs) \<in> set nxt"
    using mem cnt by (auto simp: fbl_def nxt_def map_of_foldersByLength filter_empty_conv)
  have j1: "Suc (j - Suc 0) = j" using Suc.prems(1) by simp
  have w: "walk fbl afn (Some (filter (\<lambda>x. startsWith x (js_join CHR ''/'' (take j segs))) nxt)) j = Inr nested"
    using n(1) nxt(1) by (simp add: nestedDirs_def j1)
  have inner: "js_join CHR ''/'' (take (Suc j) segs)
          \<in> set (filter (\<lambda>x. startsWith x (js_join CHR ''/'' (take j segs))) nxt)"
    using nxt(2) prefix_facts(2) [OF Suc.prems(1) _ nosep lt] lt by simp
  have d: "d = length segs - Suc j" using Suc.hyps(2) by simp
  have w': "walk fbl afn (Some (filter (\<lambda>x. startsWith x (js_join CHR ''/'' (take j segs))) nxt)) (Suc j - 1) = Inr nested"
    using w by simp
  have "1 \<le> Suc j" "Suc j \<le> length segs" using lt by simp_all
  from Suc.hyps(1) [OF d this inner w'] obtain nested' where
    "folderNodeOf (js_join CHR ''/'' segs) nested' (filesUnder afn (js_join CHR ''/'' segs))
       \<in> set (forestFolders nested)"
    by blast
  with folderNodeOf_in_forestFolders [OF n(2)] show ?case by blast
qed

lemma forest_folder_presence:
  assumes "makeFileHierarchy ps = Inr forest" "p \<in> set ps" "isFile p"
    "length (js_split CHR ''/'' p) > 1"
  shows "\<exists>node \<in> set (forestFolders forest).
           relative node = fileKey p
           \<and> count_list ps p \<le> count_list (files node) (FileNode (last (js_split CHR ''/'' p)) p)"
proof -
  define segs where "segs = butlast (js_split CHR ''/'' p)"
  define fbl where "fbl = foldersByLength (getAllFolders ps)"
  from makeFileHierarchy_Inr [OF assms(1)] obtain afn where
    afn: "getAllFileNodes ps = Inr afn" and w: "walk fbl afn (map_of fbl 0) 0 = Inr forest"
    by (auto simp: fbl_def)
  have k: "1 \<le> length segs"
    using assms(4) by (simp_all add: segs_def)
  have len: "length (js_split CHR ''/'' p) \<noteq> 1" using assms(4) by simp
  have key: "fileKey p = js_join CHR ''/'' segs"
    using len by (simp add: fileKey_def segs_def)
  have nosep: "\<forall>seg \<in> set segs. CHR ''/'' \<notin> set seg"
    unfolding segs_def by (meson in_set_butlastD js_split_no_sep)
  have mem: "js_join CHR ''/'' (take 1 segs) \<in> set (getAllFolders ps)"
    using prefix_in_getAllFolders [OF assms(2,3), of 1] k by (simp add: segs_def)
  have cnt: "charCount (js_join CHR ''/'' (take 1 segs)) CHR ''/'' = 0"
    using prefix_facts(1) [of 1 segs] k nosep by simp
  define dirs where "dirs = filter (\<lambda>x. charCount x CHR ''/'' = 0) (getAllFolders ps)"
  have dirs: "map_of fbl 0 = Some dirs" "js_join CHR ''/'' (take 1 segs) \<in> set dirs"
    using mem cnt by (auto simp: fbl_def dirs_def map_of_foldersByLength filter_empty_conv)
  have "walk fbl afn (Some dirs) (1 - 1) = Inr forest"
    using w dirs(1) by simp
  from walk_folder_presence [OF afn assms(2,3), of 1 dirs forest, folded segs_def fbl_def, OF _ k dirs(2) this]
  obtain nested where
    node: "folderNodeOf (fileKey p) nested (filesUnder afn (fileKey p)) \<in> set (forestFolders forest)"
    by (auto simp: key)
  have p_eq: "fileKey p @ CHR ''/'' # last (js_split CHR ''/'' p) = p"
    using join_butlast_last [OF len] len by (simp add: fileKey_def)
  have "count_list ps p \<le> count_list (filter (\<lambda>q. isFile q \<and> fileKey q = fileKey p) ps) p"
    using assms(3) by (simp add: count_list_filter)
  also have "\<dots> \<le> count_list (filesUnder afn (fileKey p)) (last (js_split CHR ''/'' p))"
    unfolding getAllFileNodes_filesUnder [OF afn] by (rule count_list_map_ge)
  also have "\<dots> \<le> count_list (map (\<lambda>fl. FileNode fl (fileKey p @ ''/'' @ fl)) (filesUnder afn (fileKey p)))
                       (FileNode (last (js_split CHR ''/'' p)) (fileKey p @ ''/'' @ last (js_split CHR ''/'' p)))"
    by (rule count_list_map_ge)
  also have "\<dots> \<le> count_list (files (folderNodeOf (fileKey p) nested (filesUnder afn (fileKey p))))
                       (FileNode (last (js_split CHR ''/'' p)) p)"
    by (simp add: folderNodeOf_def p_eq)
  finally show ?thesis
    using node by (intro bexI [where x = "folderNodeOf (fileKey p) nested (filesUnder afn (fileKey p))"])
                  (simp_all add: folderNodeOf_def)
qed

subsection \<open>Names in the forest\<close>

lemma forest_top_names:
  assumes "makeFileHierarchy ps = Inr forest"
  shows "distinct (map name forest)"
proof -
  define fbl where "fbl = foldersByLength (getAllFolders ps)"
  from makeFileHierarchy_Inr [OF assms(1)] obtain afn where
    w: "walk fbl afn (map_of fbl 0) 0 = Inr forest"
    by (auto simp: fbl_def)
  show ?thesis
  proof (cases "map_of fbl 0")
    case None
    with w show ?thesis by simp
  next
    case (Some dirs)
    then have dirs: "dirs = filter (\<lambda>x. charCount x CHR ''/'' = 0) (getAllFolders ps)"
      by (auto simp: fbl_def map_of_foldersByLength split: if_splits)
    have "map (\<lambda>d. hd (rev (js_split CHR ''/'' d))) dirs = dirs"
      by (rule map_idI) (auto simp: dirs charCount_zero_iff js_split_single)
    moreover have "distinct dirs"
      unfolding dirs using distinct_getAllFolders by (rule distinct_filter)
    ultimately show ?thesis
      using walk_relative [of fbl afn dirs 0 forest] w Some by simp
  qed
qed

lemma siblingFileNodes_folderNodeOf:
  assumes "list_all siblingFileNodes nested" "list_all (\<lambda>n. \<not> isFileNode n) nested" "distinct fs"
  shows "siblingFileNodes (folderNodeOf dir nested fs)"
proof -
  have "filter isFileNode nested = []"
    using assms(2) by (simp add: list_all_iff filter_empty_conv)
  moreover have "filter isFileNode (map (\<lambda>fl. FileNode fl (dir @ ''/'' @ fl)) fs)
                 = map (\<lambda>fl. FileNode fl (dir @ ''/'' @ fl)) fs"
    by (induction fs) auto
  moreover have "map name (map (\<lambda>fl. FileNode fl (dir @ ''/'' @ fl)) fs) = fs"
    by (induction fs) auto
  moreover have "list_all siblingFileNodes (map (\<lambda>fl. FileNode fl (dir @ ''/'' @ fl)) fs)"
    by (simp add: list_all_iff)
  ultimately show ?thesis
    using assms(1,3) by (simp add: folderNodeOf_def del: map_map map_append)
qed

lemma walk_siblingFileNodes:
  "walk fbl afn dirsopt depth = Inr nodes \<Longrightarrow>
   (\<forall>d nxt. map_of fbl d = Some nxt \<longrightarrow> set nxt \<subseteq> A) \<Longrightarrow>
   set (case dirsopt of None \<Rightarrow> [] | Some ds \<Rightarrow> ds) \<subseteq> A \<Longrightarrow>
   (\<forall>dir \<in> A. distinct (filesUnder afn dir)) \<Longrightarrow>
   list_all siblingFileNodes nodes \<and> list_all (\<lambda>n. \<not> isFileNode n) nodes"
proof (induction fbl afn dirsopt depth arbitrary: nodes rule: walk.induct)
  case (1 fbl afn depth)
  then show ?case by simp
next
  case (2 fbl afn depth)
  then show ?case by simp
next
  case (3 fbl afn dir dirs depth)
  from walk_Cons [OF "3.prems"(1)] obtain nested fs rest where
    w: "nestedDirs fbl afn dir depth = Inr nested" "containedFiles afn dir = Inr fs"
       "walk fbl afn (Some dirs) depth = Inr rest" "nodes = folderNodeOf dir nested fs # rest"
    by blast
  have fs: "distinct fs"
    using containedFiles_filesUnder [OF w(2)] "3.prems"(3,4) by simp
  have nested: "list_all siblingFileNodes nested \<and> list_all (\<lambda>n. \<not> isFileNode n) nested"
  proof (cases "map_of fbl (depth + 1)")
    case None
    with w(1) show ?thesis by (simp add: nestedDirs_def)
  next
    case (Some nxt)
    with w(1) have wn: "walk fbl afn (Some (filter (\<lambda>x. startsWith x dir) nxt)) (depth + 1) = Inr nested"
      by (simp add: nestedDirs_def)
    have "set (case Some (filter (\<lambda>x. startsWith x dir) nxt) of None \<Rightarrow> [] | Some ds \<Rightarrow> ds) \<subseteq> A"
      using "3.prems"(2) Some by auto
    from "3.IH"(1) [OF Some wn "3.prems"(2) this "3.prems"(4)] show ?thesis .
  qed
  have "set (case Some dirs of None \<Rightarrow> [] | Some ds \<Rightarrow> ds) \<subseteq> A"
    using "3.prems"(3) by simp
  from "3.IH"(2) [OF _ w(2) refl refl w(3) "3.prems"(2) this "3.prems"(4)] w(1)
  have rest: "list_all siblingFileNodes rest \<and> list_all (\<lambda>n. \<not> isFileNode n) rest"
    by (simp add: nestedDirs_def)
  have "\<not> isFileNode (folderNodeOf dir nested fs)"
    by (simp add: folderNodeOf_def)
  with siblingFileNodes_folderNodeOf [of nested fs dir] nested fs rest w(4)
  show ?case by simp
qed

lemma forest_siblingFileNodes:
  assumes "makeFileHierarchy ps = Inr forest" "distinct ps" "''/'' \<notin> set (getAllFolders ps)"
  shows "list_all siblingFileNodes forest"
proof -
  define fbl where "fbl = foldersByLength (getAllFolders ps)"
  from makeFileHierarchy_Inr [OF assms(1)] obtain afn where
    afn: "getAllFileNodes ps = Inr afn" and w: "walk fbl afn (map_of fbl 0) 0 = Inr forest"
    by (auto simp: fbl_def)
  have sub: "\<forall>d nxt. map_of fbl d = Some nxt \<longrightarrow> set nxt \<subseteq> set (getAllFolders ps)"
    by (auto simp: fbl_def map_of_foldersByLength split: if_splits)
  then have top: "set (case map_of fbl 0 of None \<Rightarrow> [] | Some ds \<Rightarrow> ds) \<subseteq> set (getAllFolders ps)"
    by (cases "map_of fbl 0") auto
  have "\<forall>dir \<in> set (getAllFolders ps). distinct (filesUnder afn dir)"
    using distinct_filesUnder [OF afn assms(2)] assms(3) by metis
  from walk_siblingFileNodes [OF w sub top this] show ?thesis by simp
qed

section \<open>When the two functions return\<close>

text \<open>
  Neither function raises unless a folder is named like a property of
  \<open>Object.prototype\<close>: \<open>buildTree\<close> returns when no directory segment of an
  input path is such a name, and \<open>makeFileHierarchy\<close> returns when no folder
  path found by \<open>getAllFolders\<close> is one.
\<close>

lemma insertPath_returns:
  "\<forall>part \<in> set (butlast parts). \<not> inherited part \<Longrightarrow>
   \<exists>f'. insertPath fp seen parts f = Inr f'"
proof (induction parts arbitrary: seen f)
  case Nil
  show ?case by simp
next
  case (Cons part rest)
  obtain n p fs ds where f: "f = BuildingFolder n p fs ds" by (cases f)
  show ?case
  proof (cases rest)
    case Nil
    then show ?thesis by (simp add: f)
  next
    case (Cons r rs)
    with Cons.prems have ok: "\<not> inherited part" "\<forall>part \<in> set (butlast rest). \<not> inherited part"
      by simp_all
    show ?thesis
    proof (cases "map_of ds part")
      case None
      from Cons.IH [OF ok(2), of "seen @ [part]" "BuildingFolder part (js_join CHR ''/'' (seen @ [part])) [] []"]
      show ?thesis using None ok(1) Cons f by (auto simp: Let_def)
    next
      case (Some sub)
      from Cons.IH [OF ok(2), of "seen @ [part]" sub]
      show ?thesis using Some Cons f by auto
    qed
  qed
qed

lemma buildTree_returns:
  "\<forall>p \<in> set ps. \<forall>part \<in> set (butlast (js_split CHR ''/'' p)). \<not> inherited part \<Longrightarrow>
   \<exists>t. buildTree ps r = Inr t"
proof -
  assume ok: "\<forall>p \<in> set ps. \<forall>part \<in> set (butlast (js_split CHR ''/'' p)). \<not> inherited part"
  have "\<exists>f'. insertAll ps f = Inr f'" for f
    using ok
  proof (induction ps arbitrary: f)
    case Nil
    show ?case by simp
  next
    case (Cons q ps)
    from insertPath_returns [of "js_split CHR ''/'' q" q "[]" f] Cons.prems
    obtain g where "insertPath q [] (js_split CHR ''/'' q) f = Inr g" by auto
    moreover from Cons.IH [of g] Cons.prems obtain f' where "insertAll ps g = Inr f'" by auto
    ultimately show ?case by simp
  qed
  then show ?thesis
    by (simp add: buildTree_def Let_def split: sum.splits) (metis sum.exhaust_sel sum.disc(2) sum.sel(2) Inl_Inr_False)
qed

lemma fileKey_in_getAllFolders:
  assumes "p \<in> set ps" "isFile p" "1 < length (js_split CHR ''/'' p)"
  shows "js_join CHR ''/'' (butlast (js_split CHR ''/'' p)) \<in> set (getAllFolders ps)"
  using prefix_in_getAllFolders [OF assms(1,2), of "length (butlast (js_split CHR ''/'' p))"] assms(3)
  by simp

lemma getAllFileNodes_returns:
  assumes "\<forall>d \<in> set (getAllFolders ps). \<not> inherited d"
  shows "\<exists>afn. getAllFileNodes ps = Inr afn"
proof -
  have step: "\<exists>afn'. addFileNode q afn = Inr afn'"
    if "q \<in> set ps" "map_of afn ''/'' \<noteq> None" for q afn
  proof -
    have ne: "js_split CHR ''/'' q \<noteq> []" by simp
    have "\<not> inherited (js_join CHR ''/'' (butlast (js_split CHR ''/'' q)))"
      if "1 < length (js_split CHR ''/'' q)" "js_includes (last (js_split CHR ''/'' q)) CHR ''.''"
      using fileKey_in_getAllFolders [OF \<open>q \<in> set ps\<close>] that assms by (simp add: isFile_def)
    then show ?thesis
      using that(2) ne
      by (auto simp: addFileNode_def Let_def butlast_rev [symmetric] rev_swap update_conv'
               split: option.splits)
  qed
  have "set qs \<subseteq> set ps \<Longrightarrow> map_of afn ''/'' \<noteq> None \<Longrightarrow> \<exists>afn'. addFileNodes qs afn = Inr afn'" for qs afn
  proof (induction qs arbitrary: afn)
    case Nil
    show ?case by simp
  next
    case (Cons q qs)
    from step [of q afn] Cons.prems obtain a where a: "addFileNode q afn = Inr a" by auto
    from addFileNode_filesUnder(2) [OF a] Cons.prems have "map_of a ''/'' \<noteq> None" by simp
    from Cons.IH [OF _ this] Cons.prems a show ?case by simp
  qed
  from this [of ps "[(''/'', [])]"] show ?thesis
    by (simp add: getAllFileNodes_def)
qed

lemma walk_returns:
  "(\<forall>d nxt. map_of fbl d = Some nxt \<longrightarrow> (\<forall>x \<in> set nxt. \<not> inherited x)) \<Longrightarrow>
   (\<forall>x \<in> set (case dirsopt of None \<Rightarrow> [] | Some ds \<Rightarrow> ds). \<not> inherited x) \<Longrightarrow>
   \<exists>nodes. walk fbl afn dirsopt depth = Inr nodes"
proof (induction fbl afn dirsopt depth rule: walk.induct)
  case (1 fbl afn depth)
  show ?case by simp
next
  case (2 fbl afn depth)
  show ?case by simp
next
  case (3 fbl afn dir dirs depth)
  have "\<exists>nested. (case map_of fbl (depth + 1) of
              Some nxt \<Rightarrow> walk fbl afn (Some (filter (\<lambda>x. startsWith x dir) nxt)) (depth + 1)
            | None \<Rightarrow> Inr []) = Inr nested"
  proof (cases "map_of fbl (depth + 1)")
    case None
    then show ?thesis by simp
  next
    case (Some nxt)
    with "3.prems"(1) have "\<forall>x \<in> set (case Some (filter (\<lambda>x. startsWith x dir) nxt) of None \<Rightarrow> [] | Some ds \<Rightarrow> ds). \<not> inherited x"
      by auto
    from "3.IH"(1) [OF Some "3.prems"(1) this] Some show ?thesis by simp
  qed
  then obtain nested where n: "(case map_of fbl (depth + 1) of
              Some nxt \<Rightarrow> walk fbl afn (Some (filter (\<lambda>x. startsWith x dir) nxt)) (depth + 1)
            | None \<Rightarrow> Inr []) = Inr nested" by blast
  have "\<not> inherited dir" using "3.prems"(2) by simp
  then have "\<exists>fs. containedFiles afn dir = Inr fs"
    by (cases "map_of afn dir") (simp_all add: containedFiles_def)
  then obtain fs where c: "containedFiles afn dir = Inr fs" by blast
  have "\<forall>x \<in> set (case Some dirs of None \<Rightarrow> [] | Some ds \<Rightarrow> ds). \<not> inherited x"
    using "3.prems"(2) by simp
  from "3.IH"(2) [OF n c refl refl "3.prems"(1) this] obtain rest where
    "walk fbl afn (Some dirs) depth = Inr rest" by blast
  with n c show ?case by (simp add: Let_def)
qed

lemma makeFileHierarchy_returns:
  assumes "\<forall>d \<in> set (getAllFolders ps). \<not> inherited d"
  shows "\<exists>forest. makeFileHierarchy ps = Inr forest"
proof -
  define fbl where "fbl = foldersByLength (getAllFolders ps)"
  from getAllFileNodes_returns [OF assms] obtain afn where afn: "getAllFileNodes ps = Inr afn"
    by blast
  have sub: "\<forall>d nxt. map_of fbl d = Some nxt \<longrightarrow> (\<forall>x \<in> set nxt. \<not> inherited x)"
    using assms by (auto simp: fbl_def map_of_foldersByLength split: if_splits)
  then have "\<forall>x \<in> set (case map_of fbl 0 of None \<Rightarrow> [] | Some ds \<Rightarrow> ds). \<not> inherited x"
    by (cases "map_of fbl 0") auto
  from walk_returns [OF sub this, of afn 0] afn show ?thesis
    by (simp add: makeFileHierarchy_def fbl_def Let_def)
qed

section \<open>Leaves and input paths\<close>

text \<open>
  C1, as the specification states it, fails on the input
  \<open>['foo.js', '/', 'a/b.js', 'a/b.js']\<close>. The forest has no file node for
  the input path \<open>foo.js\<close>, which has no directory. It has a file node
  whose \<open>relative\<close> is \<open>//foo.js\<close>, which is no input path. And the path
  given twice has two file nodes.
\<close>

theorem leaves_counterexample:
  "makeFileHierarchy [''foo.js'', ''/'', ''a/b.js'', ''a/b.js''] =
     Inr [FolderNode '''' '''' [FolderNode '''' ''/'' [FileNode ''foo.js'' ''//foo.js'']],
          FolderNode ''a'' ''a'' [FileNode ''b.js'' ''a/b.js'', FileNode ''b.js'' ''a/b.js'']]
   \<and> map (relative \<circ> snd)
         (forestFiles
            [FolderNode '''' '''' [FolderNode '''' ''/'' [FileNode ''foo.js'' ''//foo.js'']],
             FolderNode ''a'' ''a'' [FileNode ''b.js'' ''a/b.js'', FileNode ''b.js'' ''a/b.js'']])
       = [''//foo.js'', ''a/b.js'', ''a/b.js'']
   \<and> ''foo.js'' \<notin> set [''//foo.js'', ''a/b.js'', ''a/b.js'']
   \<and> ''//foo.js'' \<notin> set [''foo.js'', ''/'', ''a/b.js'', ''a/b.js'']
   \<and> count_list [''//foo.js'', ''a/b.js'', ''a/b.js''] ''a/b.js'' = 2"
  by code_simp

text \<open>
  C1, amended. Whenever \<open>buildTree\<close> returns, the \<open>TreeFile\<close> leaves of its
  tree are, as a multiset, the input paths: each occurrence of a path in the
  input is one leaf, whose id is that string and whose name is its last
  segment, and there is no other leaf. Whenever \<open>makeFileHierarchy\<close>
  returns, every input path that has a directory and a dot in its last
  segment is the \<open>relative\<close> of a file node of the forest, named by its last
  segment; the \<open>relative\<close> of every file node of the forest has a directory
  and a dot in its last segment; and when \<open>getAllFolders\<close> does not find the
  folder path \<open>/\<close>, the \<open>relative\<close> of every file node of the forest is an
  input path.
\<close>

theorem leaves_of_both_strategies:
  "(\<forall>t. buildTree ps r = Inr t \<longrightarrow>
        mset (treeFiles t) = mset (map (\<lambda>p. TreeFile p (last (js_split CHR ''/'' p))) ps))
   \<and> (\<forall>forest. makeFileHierarchy ps = Inr forest \<longrightarrow>
        (\<forall>p \<in> set ps. isFile p \<and> 1 < length (js_split CHR ''/'' p) \<longrightarrow>
            FileNode (last (js_split CHR ''/'' p)) p \<in> snd ` set (forestFiles forest))
        \<and> (\<forall>cl \<in> set (forestFiles forest).
              isFile (relative (snd cl)) \<and> 1 < length (js_split CHR ''/'' (relative (snd cl))))
        \<and> (''/'' \<notin> set (getAllFolders ps) \<longrightarrow>
            (\<forall>cl \<in> set (forestFiles forest). relative (snd cl) \<in> set ps)))"
proof (intro conjI allI impI ballI)
  fix t assume "buildTree ps r = Inr t"
  then show "mset (treeFiles t) = mset (map (\<lambda>p. TreeFile p (last (js_split CHR ''/'' p))) ps)"
    by (rule buildTree_leaves)
next
  fix forest p
  assume "makeFileHierarchy ps = Inr forest" "p \<in> set ps"
    "isFile p \<and> 1 < length (js_split CHR ''/'' p)"
  then have "(map (\<lambda>i. js_join CHR ''/'' (take i (butlast (js_split CHR ''/'' p))))
              [1 ..< length (js_split CHR ''/'' p)],
          FileNode (last (js_split CHR ''/'' p)) p) \<in> set (forestFiles forest)"
    using forest_presence by blast
  then show "FileNode (last (js_split CHR ''/'' p)) p \<in> snd ` set (forestFiles forest)"
    by (rule image_eqI [rotated]) simp
next
  fix forest cl
  assume "makeFileHierarchy ps = Inr forest" "cl \<in> set (forestFiles forest)"
  then show "isFile (relative (snd cl))" "1 < length (js_split CHR ''/'' (relative (snd cl)))"
    by (rule forest_leaf_dir)+
next
  fix forest cl
  assume mk: "makeFileHierarchy ps = Inr forest" and root: "''/'' \<notin> set (getAllFolders ps)"
    and cl: "cl \<in> set (forestFiles forest)"
  from forest_leaf [OF mk cl] obtain q where
    q: "q \<in> set ps" "fileKey q \<in> set (getAllFolders ps)"
       "snd cl = FileNode (last (js_split CHR ''/'' q)) (fileKey q @ ''/'' @ last (js_split CHR ''/'' q))"
    by blast
  from q(2) root have "fileKey q \<noteq> ''/''" by auto
  then have len: "length (js_split CHR ''/'' q) \<noteq> 1"
    by (auto simp: fileKey_def)
  then have "fileKey q @ ''/'' @ last (js_split CHR ''/'' q) = q"
    using join_butlast_last [OF len] by (simp add: fileKey_def)
  with q show "relative (snd cl) \<in> set ps" by simp
qed

text \<open>C1, amended, on the input \<open>['x/y/z.js', 'a.js']\<close> with the root directory \<open>root\<close>.\<close>

theorem leaves_of_both_strategies_witness:
  "buildTree [''x/y/z.js'', ''a.js''] ''root'' =
     Inr (TreeFolder ''root'' ''root''
            [TreeFolder ''x'' ''x'' [TreeFolder ''x/y'' ''y'' [TreeFile ''x/y/z.js'' ''z.js'']],
             TreeFile ''a.js'' ''a.js''])
   \<and> mset (treeFiles (TreeFolder ''root'' ''root''
            [TreeFolder ''x'' ''x'' [TreeFolder ''x/y'' ''y'' [TreeFile ''x/y/z.js'' ''z.js'']],
             TreeFile ''a.js'' ''a.js'']))
       = mset [TreeFile ''x/y/z.js'' ''z.js'', TreeFile ''a.js'' ''a.js'']
   \<and> makeFileHierarchy [''x/y/z.js'', ''a.js''] =
       Inr [FolderNode ''x'' ''x'' [FolderNode ''y'' ''x/y'' [FileNode ''z.js'' ''x/y/z.js'']]]
   \<and> isFile ''x/y/z.js'' \<and> 1 < length (js_split CHR ''/'' ''x/y/z.js'')
   \<and> ''/'' \<notin> set (getAllFolders [''x/y/z.js'', ''a.js''])
   \<and> FileNode ''z.js'' ''x/y/z.js''
       \<in> snd ` set (forestFiles [FolderNode ''x'' ''x'' [FolderNode ''y'' ''x/y'' [FileNode ''z.js'' ''x/y/z.js'']]])
   \<and> list_all (\<lambda>cl. isFile (relative (snd cl)) \<and> 1 < length (js_split CHR ''/'' (relative (snd cl))))
        (forestFiles [FolderNode ''x'' ''x'' [FolderNode ''y'' ''x/y'' [FileNode ''z.js'' ''x/y/z.js'']]])
   \<and> list_all (\<lambda>cl. relative (snd cl) \<in> set [''x/y/z.js'', ''a.js''])
        (forestFiles [FolderNode ''x'' ''x'' [FolderNode ''y'' ''x/y'' [FileNode ''z.js'' ''x/y/z.js'']]])"
proof -
  have b: "buildTree [''x/y/z.js'', ''a.js''] ''root'' =
     Inr (TreeFolder ''root'' ''root''
            [TreeFolder ''x'' ''x'' [TreeFolder ''x/y'' ''y'' [TreeFile ''x/y/z.js'' ''z.js'']],
             TreeFile ''a.js'' ''a.js''])"
    by code_simp
  have m: "makeFileHierarchy [''x/y/z.js'', ''a.js''] =
       Inr [FolderNode ''x'' ''x'' [FolderNode ''y'' ''x/y'' [FileNode ''z.js'' ''x/y/z.js'']]]"
    by code_simp
  have h: "isFile ''x/y/z.js'' \<and> 1 < length (js_split CHR ''/'' ''x/y/z.js'')"
    by code_simp
  have g: "''/'' \<notin> set (getAllFolders [''x/y/z.js'', ''a.js''])"
    by code_simp
  have l: "last (js_split CHR ''/'' ''x/y/z.js'') = ''z.js''" "last (js_split CHR ''/'' ''a.js'') = ''a.js''"
    by code_simp+
  note inst = leaves_of_both_strategies [of "[''x/y/z.js'', ''a.js'']" "''root''"]
  from inst b have 1: "mset (treeFiles (TreeFolder ''root'' ''root''
            [TreeFolder ''x'' ''x'' [TreeFolder ''x/y'' ''y'' [TreeFile ''x/y/z.js'' ''z.js'']],
             TreeFile ''a.js'' ''a.js'']))
       = mset [TreeFile ''x/y/z.js'' ''z.js'', TreeFile ''a.js'' ''a.js'']"
    by (simp only: l list.map)
  from inst m h have 2: "FileNode (last (js_split CHR ''/'' ''x/y/z.js'')) ''x/y/z.js''
       \<in> snd ` set (forestFiles [FolderNode ''x'' ''x'' [FolderNode ''y'' ''x/y'' [FileNode ''z.js'' ''x/y/z.js'']]])"
    by (meson list.set_intros(1))
  from inst m g have 3: "\<forall>cl \<in> set (forestFiles [FolderNode ''x'' ''x'' [FolderNode ''y'' ''x/y'' [FileNode ''z.js'' ''x/y/z.js'']]]).
       relative (snd cl) \<in> set [''x/y/z.js'', ''a.js'']"
    by blast
  from inst m have 4: "\<forall>cl \<in> set (forestFiles [FolderNode ''x'' ''x'' [FolderNode ''y'' ''x/y'' [FileNode ''z.js'' ''x/y/z.js'']]]).
       isFile (relative (snd cl)) \<and> 1 < length (js_split CHR ''/'' (relative (snd cl)))"
    by blast
  from b m h g 1 2 3 4 show ?thesis
    by (simp only: l list_all_iff) blast
qed

section \<open>Names of siblings\<close>

text \<open>
  C2, as the specification states it, fails on \<open>buildTree(['a', 'a/b', 'a/b'],
  'root')\<close>: the root has a folder and a file that are both named \<open>a\<close>, and
  the folder \<open>a\<close> has two files named \<open>b\<close>.
\<close>

theorem sibling_names_counterexample:
  "buildTree [''a'', ''a/b'', ''a/b''] ''root'' =
     Inr (TreeFolder ''root'' ''root''
            [TreeFolder ''a'' ''a'' [TreeFile ''a/b'' ''b'', TreeFile ''a/b'' ''b''],
             TreeFile ''a'' ''a''])
   \<and> \<not> distinct (map tree_name
                    [TreeFolder ''a'' ''a'' [TreeFile ''a/b'' ''b'', TreeFile ''a/b'' ''b''],
                     TreeFile ''a'' ''a''])
   \<and> \<not> distinct (map tree_name [TreeFile ''a/b'' ''b'', TreeFile ''a/b'' ''b''])"
  by code_simp

text \<open>
  C2, amended. In a tree returned by \<open>buildTree\<close> no two sibling folders
  have the same name, and when the input paths are pairwise different no two
  sibling files have the same name. In a forest returned by
  \<open>makeFileHierarchy\<close> the top-level entries have pairwise different names,
  and when the input paths are pairwise different and none gives the folder
  path \<open>/\<close>, no two file nodes of one folder have the same name.
\<close>

theorem sibling_names:
  "(\<forall>t. buildTree ps r = Inr t \<longrightarrow> siblingFolders t \<and> (distinct ps \<longrightarrow> siblingFiles t))
   \<and> (\<forall>forest. makeFileHierarchy ps = Inr forest \<longrightarrow>
        distinct (map name forest)
        \<and> (distinct ps \<and> ''/'' \<notin> set (getAllFolders ps) \<longrightarrow> list_all siblingFileNodes forest))"
proof (intro conjI allI impI)
  fix t assume "buildTree ps r = Inr t"
  from buildTree_Inr [OF this] obtain f where
    f: "insertAll ps (BuildingFolder (case rootName r of Some n \<Rightarrow> n | None \<Rightarrow> ''/'') r [] []) = Inr f"
    and t: "t = convertTree f"
    by blast
  have "wf_trie f" using insertAll_wf [OF f] by simp
  then show "siblingFolders t" unfolding t by (rule wf_siblingFolders)
  assume d: "distinct ps"
  have "mset (map file_path (trieFiles f)) = mset ps"
    using insertAll_files [OF f] by (simp add: multiset.map_comp comp_def)
  then have "distinct (map file_path (trieFiles f))"
    using d mset_eq_imp_distinct_iff by blast
  moreover have "located [] f" using insertAll_located [OF f] by simp
  ultimately show "siblingFiles t" unfolding t by (rule located_siblingFiles [rotated])
next
  fix forest assume "makeFileHierarchy ps = Inr forest"
  then show "distinct (map name forest)" by (rule forest_top_names)
next
  fix forest assume "makeFileHierarchy ps = Inr forest" "distinct ps \<and> ''/'' \<notin> set (getAllFolders ps)"
  then show "list_all siblingFileNodes forest"
    using forest_siblingFileNodes by blast
qed

text \<open>C2, amended, on the input \<open>['x/y/z.js', 'x/w.js']\<close> with the root directory \<open>root\<close>.\<close>

theorem sibling_names_witness:
  "buildTree [''x/y/z.js'', ''x/w.js''] ''root'' =
     Inr (TreeFolder ''root'' ''root''
            [TreeFolder ''x'' ''x''
               [TreeFolder ''x/y'' ''y'' [TreeFile ''x/y/z.js'' ''z.js''],
                TreeFile ''x/w.js'' ''w.js'']])
   \<and> makeFileHierarchy [''x/y/z.js'', ''x/w.js''] =
       Inr [FolderNode ''x'' ''x''
              [FolderNode ''y'' ''x/y'' [FileNode ''z.js'' ''x/y/z.js''],
               FileNode ''w.js'' ''x/w.js'']]
   \<and> distinct [''x/y/z.js'', ''x/w.js'']
   \<and> ''/'' \<notin> set (getAllFolders [''x/y/z.js'', ''x/w.js''])
   \<and> siblingFolders (TreeFolder ''root'' ''root''
            [TreeFolder ''x'' ''x''
               [TreeFolder ''x/y'' ''y'' [TreeFile ''x/y/z.js'' ''z.js''],
                TreeFile ''x/w.js'' ''w.js'']])
   \<and> siblingFiles (TreeFolder ''root'' ''root''
            [TreeFolder ''x'' ''x''
               [TreeFolder ''x/y'' ''y'' [TreeFile ''x/y/z.js'' ''z.js''],
                TreeFile ''x/w.js'' ''w.js'']])
   \<and> distinct (map name [FolderNode ''x'' ''x''
              [FolderNode ''y'' ''x/y'' [FileNode ''z.js'' ''x/y/z.js''],
               FileNode ''w.js'' ''x/w.js'']])
   \<and> list_all siblingFileNodes [FolderNode ''x'' ''x''
              [FolderNode ''y'' ''x/y'' [FileNode ''z.js'' ''x/y/z.js''],
               FileNode ''w.js'' ''x/w.js'']]"
proof -
  have b: "buildTree [''x/y/z.js'', ''x/w.js''] ''root'' =
     Inr (TreeFolder ''root'' ''root''
            [TreeFolder ''x'' ''x''
               [TreeFolder ''x/y'' ''y'' [TreeFile ''x/y/z.js'' ''z.js''],
                TreeFile ''x/w.js'' ''w.js'']])"
    by code_simp
  have m: "makeFileHierarchy [''x/y/z.js'', ''x/w.js''] =
       Inr [FolderNode ''x'' ''x''
              [FolderNode ''y'' ''x/y'' [FileNode ''z.js'' ''x/y/z.js''],
               FileNode ''w.js'' ''x/w.js'']]"
    by code_simp
  have d: "distinct [''x/y/z.js'', ''x/w.js'']"
    by simp
  have g: "''/'' \<notin> set (getAllFolders [''x/y/z.js'', ''x/w.js''])"
    by code_simp
  note inst = sibling_names [of "[''x/y/z.js'', ''x/w.js'']" "''root''"]
  from inst b d m g show ?thesis
    by blast
qed

section \<open>A path given more than once\<close>

text \<open>
  C7. Both strategies append without removing duplicates. Whenever
  \<open>buildTree\<close> returns, the children of the folder that the directory
  segments of a path \<open>p\<close> lead to hold the entry \<open>{id: p, name: last segment}\<close>
  exactly as often as \<open>p\<close> occurs in the input. Whenever \<open>getAllFileNodes\<close>
  returns and the last segment of \<open>p\<close> has a dot, the file list under the
  key of \<open>p\<close> holds that segment at least as often as \<open>p\<close> occurs in the
  input; and whenever \<open>makeFileHierarchy\<close> returns and \<open>p\<close> is such an input
  path with a directory, the forest has a folder node for that directory
  whose \<open>files\<close> hold the file node of \<open>p\<close> at least as often. So a path given
  twice is registered twice under the same folder.
\<close>

theorem duplicates_kept:
  "(\<forall>t. buildTree ps r = Inr t \<longrightarrow>
        count_list (childrenAt (butlast (js_split CHR ''/'' p)) t)
                   (TreeFile p (last (js_split CHR ''/'' p)))
          = count_list ps p)
   \<and> (\<forall>afn. getAllFileNodes ps = Inr afn \<and> isFile p \<longrightarrow>
        count_list ps p \<le> count_list (filesUnder afn (fileKey p)) (last (js_split CHR ''/'' p)))
   \<and> (\<forall>forest. makeFileHierarchy ps = Inr forest \<and> p \<in> set ps \<and> isFile p
                 \<and> 1 < length (js_split CHR ''/'' p) \<longrightarrow>
        (\<exists>node \<in> set (forestFolders forest).
            relative node = fileKey p
            \<and> count_list ps p
                \<le> count_list (files node) (FileNode (last (js_split CHR ''/'' p)) p)))"
proof (intro conjI allI impI)
  fix t assume "buildTree ps r = Inr t"
  from buildTree_Inr [OF this] obtain f where
    f: "insertAll ps (BuildingFolder (case rootName r of Some n \<Rightarrow> n | None \<Rightarrow> ''/'') r [] []) = Inr f"
    and t: "t = convertTree f"
    by blast
  have wf: "wf_trie f" using insertAll_wf [OF f] by simp
  have "filesAt (butlast (js_split CHR ''/'' p)) f =
          map (\<lambda>q. \<lparr>file_name = last (js_split CHR ''/'' q), file_path = q\<rparr>)
            (filter (\<lambda>q. butlast (js_split CHR ''/'' q) = butlast (js_split CHR ''/'' p)) ps)"
    using insertAll_filesAt [OF f, of "butlast (js_split CHR ''/'' p)"] by simp
  then have "map (\<lambda>b. TreeFile (file_path b) (file_name b)) (filesAt (butlast (js_split CHR ''/'' p)) f)
        = map (\<lambda>q. TreeFile q (last (js_split CHR ''/'' q)))
            (filter (\<lambda>q. butlast (js_split CHR ''/'' q) = butlast (js_split CHR ''/'' p)) ps)"
    by (simp add: comp_def)
  moreover have "count_list (map (\<lambda>q. TreeFile q (last (js_split CHR ''/'' q))) qs)
                    (TreeFile p (last (js_split CHR ''/'' p))) = count_list qs p" for qs
    by (induction qs) auto
  ultimately show "count_list (childrenAt (butlast (js_split CHR ''/'' p)) t)
                   (TreeFile p (last (js_split CHR ''/'' p))) = count_list ps p"
    unfolding t childrenAt_files [OF wf] by (simp add: count_list_filter)
next
  fix afn assume "getAllFileNodes ps = Inr afn \<and> isFile p"
  then have afn: "getAllFileNodes ps = Inr afn" and p: "isFile p" by simp_all
  have "count_list ps p = count_list (filter (\<lambda>q. isFile q \<and> fileKey q = fileKey p) ps) p"
    using p by (simp add: count_list_filter)
  also have "\<dots> \<le> count_list (map (\<lambda>q. last (js_split CHR ''/'' q))
                      (filter (\<lambda>q. isFile q \<and> fileKey q = fileKey p) ps)) (last (js_split CHR ''/'' p))"
    by (rule count_list_map_ge)
  finally show "count_list ps p \<le> count_list (filesUnder afn (fileKey p)) (last (js_split CHR ''/'' p))"
    by (simp add: getAllFileNodes_filesUnder [OF afn])
next
  fix forest
  assume "makeFileHierarchy ps = Inr forest \<and> p \<in> set ps \<and> isFile p
            \<and> 1 < length (js_split CHR ''/'' p)"
  then show "\<exists>node \<in> set (forestFolders forest).
            relative node = fileKey p
            \<and> count_list ps p
                \<le> count_list (files node) (FileNode (last (js_split CHR ''/'' p)) p)"
    using forest_folder_presence by blast
qed

text \<open>C7 on the input \<open>['a/b.js', 'c.js', 'a/b.js']\<close>, where \<open>a/b.js\<close> occurs twice.\<close>

theorem duplicates_kept_witness:
  "buildTree [''a/b.js'', ''c.js'', ''a/b.js''] ''root'' =
     Inr (TreeFolder ''root'' ''root''
            [TreeFolder ''a'' ''a'' [TreeFile ''a/b.js'' ''b.js'', TreeFile ''a/b.js'' ''b.js''],
             TreeFile ''c.js'' ''c.js''])
   \<and> getAllFileNodes [''a/b.js'', ''c.js'', ''a/b.js''] =
       Inr [(''/'', [''c.js'']), (''a'', [''b.js'', ''b.js''])]
   \<and> makeFileHierarchy [''a/b.js'', ''c.js'', ''a/b.js''] =
       Inr [FolderNode ''a'' ''a'' [FileNode ''b.js'' ''a/b.js'', FileNode ''b.js'' ''a/b.js'']]
   \<and> ''a/b.js'' \<in> set [''a/b.js'', ''c.js'', ''a/b.js'']
   \<and> isFile ''a/b.js'' \<and> 1 < length (js_split CHR ''/'' ''a/b.js'')
   \<and> count_list (childrenAt [''a'']
         (TreeFolder ''root'' ''root''
            [TreeFolder ''a'' ''a'' [TreeFile ''a/b.js'' ''b.js'', TreeFile ''a/b.js'' ''b.js''],
             TreeFile ''c.js'' ''c.js''])) (TreeFile ''a/b.js'' ''b.js'') = 2
   \<and> 2 \<le> count_list (filesUnder [(''/'', [''c.js'']), (''a'', [''b.js'', ''b.js''])] ''a'') ''b.js''
   \<and> list_ex (\<lambda>node. relative node = ''a''
                      \<and> 2 \<le> count_list (files node) (FileNode ''b.js'' ''a/b.js''))
         (forestFolders
            [FolderNode ''a'' ''a'' [FileNode ''b.js'' ''a/b.js'', FileNode ''b.js'' ''a/b.js'']])"
proof -
  have b: "buildTree [''a/b.js'', ''c.js'', ''a/b.js''] ''root'' =
     Inr (TreeFolder ''root'' ''root''
            [TreeFolder ''a'' ''a'' [TreeFile ''a/b.js'' ''b.js'', TreeFile ''a/b.js'' ''b.js''],
             TreeFile ''c.js'' ''c.js''])"
    by code_simp
  have m: "getAllFileNodes [''a/b.js'', ''c.js'', ''a/b.js''] =
       Inr [(''/'', [''c.js'']), (''a'', [''b.js'', ''b.js''])]"
    by code_simp
  have k: "makeFileHierarchy [''a/b.js'', ''c.js'', ''a/b.js''] =
       Inr [FolderNode ''a'' ''a'' [FileNode ''b.js'' ''a/b.js'', FileNode ''b.js'' ''a/b.js'']]"
    by code_simp
  have i: "''a/b.js'' \<in> set [''a/b.js'', ''c.js'', ''a/b.js'']"
    by simp
  have h: "isFile ''a/b.js''" "1 < length (js_split CHR ''/'' ''a/b.js'')"
    by code_simp+
  have e: "butlast (js_split CHR ''/'' ''a/b.js'') = [''a'']" "last (js_split CHR ''/'' ''a/b.js'') = ''b.js''"
    "fileKey ''a/b.js'' = ''a''" "count_list [''a/b.js'', ''c.js'', ''a/b.js''] ''a/b.js'' = 2"
    by code_simp+
  note inst = duplicates_kept [of "[''a/b.js'', ''c.js'', ''a/b.js'']" "''root''" "''a/b.js''"]
  from inst b have 1: "count_list (childrenAt [''a'']
         (TreeFolder ''root'' ''root''
            [TreeFolder ''a'' ''a'' [TreeFile ''a/b.js'' ''b.js'', TreeFile ''a/b.js'' ''b.js''],
             TreeFile ''c.js'' ''c.js''])) (TreeFile ''a/b.js'' ''b.js'') = 2"
    unfolding e by blast
  from inst m h(1) have 2: "2 \<le> count_list (filesUnder [(''/'', [''c.js'']), (''a'', [''b.js'', ''b.js''])] ''a'') ''b.js''"
    unfolding e by blast
  from inst k i h have 3: "\<exists>node \<in> set (forestFolders
            [FolderNode ''a'' ''a'' [FileNode ''b.js'' ''a/b.js'', FileNode ''b.js'' ''a/b.js'']]).
         relative node = ''a'' \<and> 2 \<le> count_list (files node) (FileNode ''b.js'' ''a/b.js'')"
    unfolding e by blast
  from b m k i h 1 2 3 show ?thesis
    unfolding list_ex_iff by blast
qed

section \<open>Depth of a file in the forest\<close>

text \<open>
  C8, as the specification states it, fails for a file without a directory:
  \<open>a.js\<close> has no directory segment, and it does not sit at the top of the
  forest under no folder, for the forest of \<open>['a.js']\<close> is empty.
\<close>

theorem depth_counterexample:
  "makeFileHierarchy [''a.js''] = Inr []
   \<and> length (js_split CHR ''/'' ''a.js'') - 1 = 0
   \<and> ''a.js'' \<notin> set (map (relative \<circ> snd) (forestFiles []))"
  by code_simp

text \<open>
  C8, amended. Whenever \<open>makeFileHierarchy\<close> returns: an input path with
  \<open>k \<ge> 1\<close> directory segments and a dot in its last segment is a file node
  under the chain of the \<open>k\<close> folders of its directory prefixes, the shortest
  prefix outermost; every file node of the forest is enclosed by exactly as
  many folders as its path has slashes, that is as many as it has directory
  segments, by one at least, and the innermost of them is the folder of its
  directory path; and an input path without a directory is the path of no
  file node of the forest.
\<close>

theorem depth_of_files:
  "\<forall>forest. makeFileHierarchy ps = Inr forest \<longrightarrow>
     (\<forall>p \<in> set ps. isFile p \<and> 1 < length (js_split CHR ''/'' p) \<longrightarrow>
           (map (\<lambda>i. js_join CHR ''/'' (take i (butlast (js_split CHR ''/'' p))))
                [1 ..< length (js_split CHR ''/'' p)],
            FileNode (last (js_split CHR ''/'' p)) p) \<in> set (forestFiles forest))
     \<and> (\<forall>cl \<in> set (forestFiles forest).
         length (fst cl) = charCount (relative (snd cl)) CHR ''/''
         \<and> Suc (length (fst cl)) = length (js_split CHR ''/'' (relative (snd cl)))
         \<and> fst cl \<noteq> []
         \<and> last (fst cl) = js_join CHR ''/'' (butlast (js_split CHR ''/'' (relative (snd cl)))))
     \<and> (\<forall>p \<in> set ps. length (js_split CHR ''/'' p) = 1 \<longrightarrow>
           p \<notin> set (map (relative \<circ> snd) (forestFiles forest)))"
proof (intro conjI allI impI ballI)
  fix forest cl
  assume mk: "makeFileHierarchy ps = Inr forest" and cl: "cl \<in> set (forestFiles forest)"
  from forest_leaf [OF mk cl] obtain q where
    q: "charCount (fileKey q) CHR ''/'' + 1 = length (fst cl)"
       "snd cl = FileNode (last (js_split CHR ''/'' q)) (fileKey q @ ''/'' @ last (js_split CHR ''/'' q))"
    by blast
  have "charCount (last (js_split CHR ''/'' q)) CHR ''/'' = 0"
    using last_split_no_sep [of "CHR ''/''" q] by (simp add: charCount_zero_iff)
  with q show len: "length (fst cl) = charCount (relative (snd cl)) CHR ''/''"
    by simp
  then show "Suc (length (fst cl)) = length (js_split CHR ''/'' (relative (snd cl)))"
    by (simp add: length_js_split)
  show "fst cl \<noteq> []"
    and "last (fst cl) = js_join CHR ''/'' (butlast (js_split CHR ''/'' (relative (snd cl))))"
    using forest_leaf_dir(3,4) [OF mk cl] by blast+
next
  fix forest p
  assume "makeFileHierarchy ps = Inr forest" "p \<in> set ps"
    "isFile p \<and> 1 < length (js_split CHR ''/'' p)"
  then show "(map (\<lambda>i. js_join CHR ''/'' (take i (butlast (js_split CHR ''/'' p))))
                [1 ..< length (js_split CHR ''/'' p)],
            FileNode (last (js_split CHR ''/'' p)) p) \<in> set (forestFiles forest)"
    using forest_presence by blast
next
  fix forest p
  assume mk: "makeFileHierarchy ps = Inr forest" and one: "length (js_split CHR ''/'' p) = 1"
  show "p \<notin> set (map (relative \<circ> snd) (forestFiles forest))"
  proof
    assume "p \<in> set (map (relative \<circ> snd) (forestFiles forest))"
    then obtain cl where cl: "cl \<in> set (forestFiles forest)" and r: "relative (snd cl) = p"
      by auto
    from forest_leaf_dir(2) [OF mk cl] have "1 < length (js_split CHR ''/'' p)"
      unfolding r .
    with one show False by simp
  qed
qed

text \<open>
  C8, amended, on the input \<open>['x/y/z.js', 'a.js']\<close>: the first file sits under
  \<open>x\<close> and \<open>x/y\<close>, the second has no node.
\<close>

theorem depth_of_files_witness:
  "makeFileHierarchy [''x/y/z.js'', ''a.js''] =
       Inr [FolderNode ''x'' ''x'' [FolderNode ''y'' ''x/y'' [FileNode ''z.js'' ''x/y/z.js'']]]
   \<and> isFile ''x/y/z.js'' \<and> 1 < length (js_split CHR ''/'' ''x/y/z.js'')
   \<and> length (js_split CHR ''/'' ''a.js'') = 1
   \<and> ([''x'', ''x/y''], FileNode ''z.js'' ''x/y/z.js'')
       \<in> set (forestFiles [FolderNode ''x'' ''x'' [FolderNode ''y'' ''x/y'' [FileNode ''z.js'' ''x/y/z.js'']]])
   \<and> list_all (\<lambda>cl. length (fst cl) = charCount (relative (snd cl)) CHR ''/''
                    \<and> Suc (length (fst cl)) = length (js_split CHR ''/'' (relative (snd cl)))
                    \<and> fst cl \<noteq> []
                    \<and> last (fst cl) = js_join CHR ''/'' (butlast (js_split CHR ''/'' (relative (snd cl)))))
        (forestFiles [FolderNode ''x'' ''x'' [FolderNode ''y'' ''x/y'' [FileNode ''z.js'' ''x/y/z.js'']]])
   \<and> ''a.js'' \<notin> set (map (relative \<circ> snd)
        (forestFiles [FolderNode ''x'' ''x'' [FolderNode ''y'' ''x/y'' [FileNode ''z.js'' ''x/y/z.js'']]]))"
proof -
  have m: "makeFileHierarchy [''x/y/z.js'', ''a.js''] =
       Inr [FolderNode ''x'' ''x'' [FolderNode ''y'' ''x/y'' [FileNode ''z.js'' ''x/y/z.js'']]]"
    by code_simp
  have h: "isFile ''x/y/z.js'' \<and> 1 < length (js_split CHR ''/'' ''x/y/z.js'')"
    by code_simp
  have o: "length (js_split CHR ''/'' ''a.js'') = 1"
    by code_simp
  have e: "map (\<lambda>i. js_join CHR ''/'' (take i (butlast (js_split CHR ''/'' ''x/y/z.js''))))
                [1 ..< length (js_split CHR ''/'' ''x/y/z.js'')] = [''x'', ''x/y'']"
    "last (js_split CHR ''/'' ''x/y/z.js'') = ''z.js''"
    by code_simp+
  note inst = depth_of_files [of "[''x/y/z.js'', ''a.js'']"]
  from inst m have 1: "\<forall>cl \<in> set (forestFiles [FolderNode ''x'' ''x'' [FolderNode ''y'' ''x/y'' [FileNode ''z.js'' ''x/y/z.js'']]]).
         length (fst cl) = charCount (relative (snd cl)) CHR ''/''
         \<and> Suc (length (fst cl)) = length (js_split CHR ''/'' (relative (snd cl)))
         \<and> fst cl \<noteq> []
         \<and> last (fst cl) = js_join CHR ''/'' (butlast (js_split CHR ''/'' (relative (snd cl))))"
    by blast
  from inst m h have 2: "(map (\<lambda>i. js_join CHR ''/'' (take i (butlast (js_split CHR ''/'' ''x/y/z.js''))))
                [1 ..< length (js_split CHR ''/'' ''x/y/z.js'')],
            FileNode (last (js_split CHR ''/'' ''x/y/z.js'')) ''x/y/z.js'')
       \<in> set (forestFiles [FolderNode ''x'' ''x'' [FolderNode ''y'' ''x/y'' [FileNode ''z.js'' ''x/y/z.js'']]])"
    by (meson list.set_intros(1))
  from inst m o have 3: "''a.js'' \<notin> set (map (relative \<circ> snd)
        (forestFiles [FolderNode ''x'' ''x'' [FolderNode ''y'' ''x/y'' [FileNode ''z.js'' ''x/y/z.js'']]]))"
    by (meson list.set_intros)
  from m h o 1 2 3 show ?thesis
    unfolding e list_all_iff by blast
qed

section \<open>The empty path\<close>

text \<open>
  C10. The empty string is split into one empty segment, which is the last
  one and so a file: \<open>buildTree([''], 'root')\<close> is the root folder with the
  one child file whose id and name are empty. Wherever the empty string
  stands in the input, the call raises with it exactly when it raises
  without it; whenever the call returns, the root has the child
  \<open>{id: '', name: ''}\<close> once for each empty string of the input; and an empty
  string at the end of the input adds that child as the last one.
\<close>

theorem buildTree_empty_path:
  "buildTree [''''] ''root'' = Inr (TreeFolder ''root'' ''root'' [TreeFile '''' ''''])
   \<and> (buildTree (xs @ '''' # ys) r = Inl e) = (buildTree (xs @ ys) r = Inl e)
   \<and> (\<forall>t. buildTree ps r = Inr t \<longrightarrow>
         count_list (children t) (TreeFile '''' '''') = count_list ps '''')
   \<and> buildTree (ps @ ['''']) r =
       (case buildTree ps r of
          Inl e \<Rightarrow> Inl e
        | Inr t \<Rightarrow> Inr (TreeFolder (tree_id t) (tree_name t) (children t @ [TreeFile '''' ''''])))"
proof (intro conjI allI impI)
  show "buildTree [''''] ''root'' = Inr (TreeFolder ''root'' ''root'' [TreeFile '''' ''''])"
    by code_simp
next
  show "(buildTree (xs @ '''' # ys) r = Inl e) = (buildTree (xs @ ys) r = Inl e)"
    by (rule buildTree_fails_apart)
next
  fix t assume "buildTree ps r = Inr t"
  then show "count_list (children t) (TreeFile '''' '''') = count_list ps ''''"
    by (rule buildTree_root_count)
next
  have step: "insertPath [] [] [[]] f =
          Inr (BuildingFolder (folder_name f) (folder_path f)
                 (folder_files f @ [\<lparr>file_name = '''', file_path = ''''\<rparr>]) (folders f))" for f
    by (cases f) simp
  show "buildTree (ps @ ['''']) r =
       (case buildTree ps r of
          Inl e \<Rightarrow> Inl e
        | Inr t \<Rightarrow> Inr (TreeFolder (tree_id t) (tree_name t) (children t @ [TreeFile '''' ''''])))"
    unfolding buildTree_def Let_def
    by (simp add: insertAll_append step split: sum.splits)
qed

text \<open>C10 on the input \<open>['', 'a']\<close>, where the empty path is not the last one.\<close>

theorem buildTree_empty_path_witness:
  "buildTree ['''', ''a''] ''root'' =
     Inr (TreeFolder ''root'' ''root'' [TreeFile '''' '''', TreeFile ''a'' ''a''])
   \<and> count_list (children (TreeFolder ''root'' ''root'' [TreeFile '''' '''', TreeFile ''a'' ''a'']))
        (TreeFile '''' '''')
       = count_list ['''', ''a''] ''''
   \<and> count_list ['''', ''a''] '''' = 1"
proof -
  have b: "buildTree ['''', ''a''] ''root'' =
     Inr (TreeFolder ''root'' ''root'' [TreeFile '''' '''', TreeFile ''a'' ''a''])"
    by code_simp
  have c: "count_list ['''', ''a''] '''' = 1"
    by code_simp
  note inst = buildTree_empty_path [of "[]" "[]" "''root''" TypeError "['''', ''a'']"]
  from inst b have "count_list (children (TreeFolder ''root'' ''root'' [TreeFile '''' '''', TreeFile ''a'' ''a'']))
        (TreeFile '''' '''') = count_list ['''', ''a''] ''''"
    by blast
  with b c show ?thesis by blast
qed

end
